theory Spec2Isabelle
  imports Main "HOL-Library.Word" "HOL-Library.List_Lexorder"
begin

unbundle bit_operations_syntax

section \<open>Byte strings, errors and panics\<close>

text \<open>
  A Go \<open>[]byte\<close> is a list of 8-bit words. Where the code only takes \<open>len\<close> of a slice
  or compares it with \<open>bytes.Equal\<close>, a nil slice and an empty slice behave alike and both
  are \<open>[]\<close>; where the code tests \<open>!= nil\<close> (the result of a bucket lookup, the key
  returned by a store cursor) the value is an \<open>option\<close> and \<open>None\<close> is nil. The order on
  \<open>bytes\<close> is the lexicographic one of \<open>bytes.Compare\<close>, which orders the keys of a bucket.
\<close>

type_synonym byte = "8 word"
type_synonym bytes = "byte list"
type_synonym uint64 = "64 word"

text \<open>
  The three errors of the package, the errors of the store that the package hands on
  unchanged, and the three ways the Go runtime can stop a call (a method called through
  a nil cursor, a slice expression beyond the length of the slice, an index outside a
  slice).
\<close>

datatype error =
    ErrInvalidValue
  | ErrInvalidBucket
  | ErrInvalidKey
  | ErrTxNotWritable
  | ErrKeyRequired
  | ErrKeyTooLarge
  | ErrValueTooLarge
  | PanicNilPointer
  | PanicSliceBounds
  | PanicIndexRange

section \<open>The value codec (boltseq.go)\<close>

text \<open>\<open>binary.BigEndian.PutUint64\<close>: byte \<open>i\<close> is \<open>byte(v >> (56 - 8 i))\<close>.\<close>

definition PutUint64 :: "uint64 \<Rightarrow> bytes" where
  "PutUint64 v = [ucast (drop_bit 56 v), ucast (drop_bit 48 v), ucast (drop_bit 40 v),
     ucast (drop_bit 32 v), ucast (drop_bit 24 v), ucast (drop_bit 16 v),
     ucast (drop_bit 8 v), ucast v]"

text \<open>
  \<open>binary.BigEndian.Uint64\<close>:
  \<open>uint64(b[7]) | uint64(b[6])<<8 | ... | uint64(b[0])<<56\<close>, after the bounds check
  \<open>_ = b[7]\<close>, which panics on fewer than 8 bytes.
\<close>

definition Uint64 :: "bytes \<Rightarrow> error + uint64" where
  "Uint64 b = (if length b < 8 then Inl PanicSliceBounds else
     Inr (ucast (b ! 7) OR push_bit 8 (ucast (b ! 6)) OR push_bit 16 (ucast (b ! 5))
       OR push_bit 24 (ucast (b ! 4)) OR push_bit 32 (ucast (b ! 3))
       OR push_bit 40 (ucast (b ! 2)) OR push_bit 48 (ucast (b ! 1))
       OR push_bit 56 (ucast (b ! 0))))"

text \<open>\<open>newValue\<close>: a slice of \<open>8 + len(val)\<close> bytes, the sequence number first.\<close>

definition newValue :: "uint64 \<Rightarrow> bytes \<Rightarrow> bytes" where
  "newValue seq val = PutUint64 seq @ val"

definition Value_IsValid :: "bytes \<Rightarrow> bool" where
  "Value_IsValid v = (8 \<le> length v)"

text \<open>
  \<open>Data\<close>, \<open>Seq\<close> and \<open>seqBytes\<close> slice the value at 8 (\<open>v[8:]\<close>, \<open>v[:8]\<close>): on a value
  shorter than 8 bytes the slice expression panics (a slice handed out by the store has
  its capacity equal to its length).
\<close>

definition Value_Data :: "bytes \<Rightarrow> error + bytes" where
  "Value_Data v = (if length v < 8 then Inl PanicSliceBounds else Inr (drop 8 v))"

definition Value_seqBytes :: "bytes \<Rightarrow> error + bytes" where
  "Value_seqBytes v = (if length v < 8 then Inl PanicSliceBounds else Inr (take 8 v))"

definition Value_Seq :: "bytes \<Rightarrow> error + uint64" where
  "Value_Seq v = (if length v < 8 then Inl PanicSliceBounds else Uint64 (take 8 v))"

section \<open>The store\<close>

text \<open>
  Modelled from the spec: the Store of section 6 (the bbolt engine, which is not part of
  this repository). A collection is an ordered set of key/value pairs, kept as a list
  sorted by key, with a persistent 64-bit counter; a transaction is read-write or
  read-only, and every mutation fails in a read-only one. \<open>Put\<close> refuses a blank key, a
  key above \<open>MaxKeySize\<close> and a value above \<open>MaxValueSize\<close>, as bbolt documents;
  \<open>Delete\<close> of a missing key succeeds; \<open>NextSequence\<close> increments the counter, which
  wraps around at \<open>2^64\<close>. The fill-percent hint has no effect on the contents.
\<close>

record bolt_bucket =
  pairs :: "(bytes \<times> bytes) list"
  sequence :: uint64

definition new_bucket :: bolt_bucket where
  "new_bucket = \<lparr>pairs = [], sequence = 0\<rparr>"

definition MaxKeySize :: nat where
  "MaxKeySize = 32768"

definition MaxValueSize :: nat where
  "MaxValueSize = 2147483646"

fun insert_pair :: "bytes \<Rightarrow> bytes \<Rightarrow> (bytes \<times> bytes) list \<Rightarrow> (bytes \<times> bytes) list" where
  "insert_pair k v [] = [(k, v)]"
| "insert_pair k v (p # ps) =
     (if k < fst p then (k, v) # p # ps
      else if k = fst p then (k, v) # ps
      else p # insert_pair k v ps)"

definition remove_key :: "bytes \<Rightarrow> (bytes \<times> bytes) list \<Rightarrow> (bytes \<times> bytes) list" where
  "remove_key k ps = filter (\<lambda>p. fst p \<noteq> k) ps"

definition bGet :: "bolt_bucket \<Rightarrow> bytes \<Rightarrow> bytes option" where
  "bGet b k = map_of (pairs b) k"

definition bPut :: "bool \<Rightarrow> bolt_bucket \<Rightarrow> bytes \<Rightarrow> bytes \<Rightarrow> error + bolt_bucket" where
  "bPut w b k v =
     (if \<not> w then Inl ErrTxNotWritable
      else if k = [] then Inl ErrKeyRequired
      else if MaxKeySize < length k then Inl ErrKeyTooLarge
      else if MaxValueSize < length v then Inl ErrValueTooLarge
      else Inr (b\<lparr>pairs := insert_pair k v (pairs b)\<rparr>))"

definition bDelete :: "bool \<Rightarrow> bolt_bucket \<Rightarrow> bytes \<Rightarrow> error + bolt_bucket" where
  "bDelete w b k =
     (if \<not> w then Inl ErrTxNotWritable
      else Inr (b\<lparr>pairs := remove_key k (pairs b)\<rparr>))"

definition NextSequence :: "bool \<Rightarrow> bolt_bucket \<Rightarrow> error + (uint64 \<times> bolt_bucket)" where
  "NextSequence w b =
     (if \<not> w then Inl ErrTxNotWritable
      else Inr (sequence b + 1, b\<lparr>sequence := sequence b + 1\<rparr>))"

text \<open>
  A store cursor is a place in the ordered collection: the index of an entry, or an
  index past the last entry; a cursor that was never positioned has no place (\<open>None\<close>).
  \<open>keyValue\<close> is the pair at a place, \<open>None\<close> for bbolt's \<open>(nil, nil)\<close>. \<open>First\<close>, \<open>Last\<close>
  and \<open>Seek\<close> set the place (\<open>Seek\<close> to the first entry with a key at or above the given
  one, past the end when there is none); \<open>Next\<close> and \<open>Prev\<close> move it by one entry and leave
  it where it is when there is no entry to move to. Each returns the new place and the
  pair found there. \<open>Delete\<close> removes the entry under the key found at the cursor's
  place, which is the nil key when the place holds no entry, and then removes nothing
  from a collection without a blank key; the place stays as it is, so the entry that
  followed the removed one is the one under the cursor afterwards. Section 6 is silent
  on \<open>Delete\<close> through a cursor that was never positioned: bbolt indexes the empty stack
  of the cursor there and the Go runtime stops the call.
\<close>

type_synonym bolt_cursor = "nat option"

definition keyValue :: "bolt_bucket \<Rightarrow> nat \<Rightarrow> (bytes \<times> bytes) option" where
  "keyValue b i = (if i < length (pairs b) then Some (pairs b ! i) else None)"

definition seek_key :: "(bytes \<times> bytes) option \<Rightarrow> bytes" where
  "seek_key r = (case r of None \<Rightarrow> [] | Some kv \<Rightarrow> fst kv)"

definition seek_val :: "(bytes \<times> bytes) option \<Rightarrow> bytes" where
  "seek_val r = (case r of None \<Rightarrow> [] | Some kv \<Rightarrow> snd kv)"

definition cFirst :: "bolt_bucket \<Rightarrow> bolt_cursor \<times> (bytes \<times> bytes) option" where
  "cFirst b = (Some 0, keyValue b 0)"

definition cLast :: "bolt_bucket \<Rightarrow> bolt_cursor \<times> (bytes \<times> bytes) option" where
  "cLast b = (Some (length (pairs b) - 1), keyValue b (length (pairs b) - 1))"

definition cSeek :: "bolt_bucket \<Rightarrow> bytes \<Rightarrow> bolt_cursor \<times> (bytes \<times> bytes) option" where
  "cSeek b k =
     (let i = length (takeWhile (\<lambda>p. fst p < k) (pairs b)) in (Some i, keyValue b i))"

definition cNext :: "bolt_bucket \<Rightarrow> bolt_cursor \<Rightarrow> bolt_cursor \<times> (bytes \<times> bytes) option" where
  "cNext b cur =
     (case cur of
        None \<Rightarrow> (None, None)
      | Some i \<Rightarrow>
          if Suc i < length (pairs b) then (Some (Suc i), keyValue b (Suc i))
          else (Some i, None))"

definition cPrev :: "bolt_bucket \<Rightarrow> bolt_cursor \<Rightarrow> bolt_cursor \<times> (bytes \<times> bytes) option" where
  "cPrev b cur =
     (case cur of
        None \<Rightarrow> (None, None)
      | Some i \<Rightarrow>
          if 0 < i then (Some (i - 1), keyValue b (i - 1))
          else (Some 0, None))"

definition cDelete :: "bool \<Rightarrow> bolt_bucket \<Rightarrow> bolt_cursor \<Rightarrow> error + bolt_bucket" where
  "cDelete w b cur =
     (if \<not> w then Inl ErrTxNotWritable
      else case cur of
             None \<Rightarrow> Inl PanicIndexRange
           | Some i \<Rightarrow> Inr (b\<lparr>pairs := remove_key (seek_key (keyValue b i)) (pairs b)\<rparr>))"

text \<open>
  The \<open>Location\<close> (a transaction or a parent bucket) holds the two sub-buckets the
  package names, each of which may not exist yet.
\<close>

datatype name = bucketNameData | bucketNameSeq

record location =
  dataB :: "bolt_bucket option"
  seqB :: "bolt_bucket option"
  writable :: bool

definition Bucket :: "location \<Rightarrow> name \<Rightarrow> bolt_bucket option" where
  "Bucket loc n = (case n of bucketNameData \<Rightarrow> dataB loc | bucketNameSeq \<Rightarrow> seqB loc)"

definition setBucket :: "location \<Rightarrow> name \<Rightarrow> bolt_bucket \<Rightarrow> location" where
  "setBucket loc n b =
     (case n of bucketNameData \<Rightarrow> loc\<lparr>dataB := Some b\<rparr> | bucketNameSeq \<Rightarrow> loc\<lparr>seqB := Some b\<rparr>)"

definition CreateBucketIfNotExists :: "location \<Rightarrow> name \<Rightarrow> error + (bolt_bucket \<times> location)" where
  "CreateBucketIfNotExists loc n =
     (if \<not> writable loc then Inl ErrTxNotWritable
      else case Bucket loc n of
             Some b \<Rightarrow> Inr (b, loc)
           | None \<Rightarrow> Inr (new_bucket, setBucket loc n new_bucket))"

section \<open>The bucket (boltseq.go)\<close>

text \<open>
  \<open>Bucket\<close> holds nothing but its location, so every method takes the location and
  returns it as the call leaves it, also when the call fails half-way: the store does
  not undo the writes of a failed call. \<open>bd\<close> and \<open>bs\<close> are the handles of the two
  sub-buckets; \<open>store\<close> writes them back.
\<close>

definition store :: "location \<Rightarrow> bolt_bucket \<Rightarrow> bolt_bucket \<Rightarrow> location" where
  "store loc bd bs = loc\<lparr>dataB := Some bd, seqB := Some bs\<rparr>"

text \<open>The block of \<open>Put\<close> under the comment \<open>Delete current value\<close>.\<close>

definition delete_current ::
  "bool \<Rightarrow> bolt_bucket \<Rightarrow> bolt_bucket \<Rightarrow> bytes \<Rightarrow>
     (error \<times> bolt_bucket \<times> bolt_bucket) + (bolt_bucket \<times> bolt_bucket)" where
  "delete_current w bd bs key =
     (case bGet bd key of
        None \<Rightarrow> Inr (bd, bs)
      | Some v \<Rightarrow>
          if \<not> Value_IsValid v then Inl (ErrInvalidValue, bd, bs)
          else (case Value_seqBytes v of
                  Inl err \<Rightarrow> Inl (err, bd, bs)
                | Inr sb \<Rightarrow>
                    (case bDelete w bs sb of
                       Inl err \<Rightarrow> Inl (err, bd, bs)
                     | Inr bs' \<Rightarrow>
                         (case bDelete w bd key of
                            Inl err \<Rightarrow> Inl (err, bd, bs')
                          | Inr bd' \<Rightarrow> Inr (bd', bs')))))"

definition Put :: "location \<Rightarrow> bytes \<Rightarrow> bytes \<Rightarrow> (uint64 \<times> error option) \<times> location" where
  "Put loc key val =
     (case CreateBucketIfNotExists loc bucketNameData of
        Inl err \<Rightarrow> ((0, Some err), loc)
      | Inr (bd, loc1) \<Rightarrow>
     (case CreateBucketIfNotExists loc1 bucketNameSeq of
        Inl err \<Rightarrow> ((0, Some err), loc1)
      | Inr (bs, loc2) \<Rightarrow>
     (case delete_current (writable loc2) bd bs key of
        Inl (err, bd1, bs1) \<Rightarrow> ((0, Some err), store loc2 bd1 bs1)
      | Inr (bd1, bs1) \<Rightarrow>
     (case NextSequence (writable loc2) bs1 of
        Inl err \<Rightarrow> ((0, Some err), store loc2 bd1 bs1)
      | Inr (seq, bs2) \<Rightarrow>
     (case Value_seqBytes (newValue seq val) of
        Inl err \<Rightarrow> ((seq, Some err), store loc2 bd1 bs2)
      | Inr sb \<Rightarrow>
     (case bPut (writable loc2) bs2 sb key of
        Inl err \<Rightarrow> ((seq, Some err), store loc2 bd1 bs2)
      | Inr bs3 \<Rightarrow>
     (case bPut (writable loc2) bd1 key (newValue seq val) of
        Inl err \<Rightarrow> ((seq, Some err), store loc2 bd1 bs3)
      | Inr bd2 \<Rightarrow> ((seq, None), store loc2 bd2 bs3))))))))"

definition Get :: "location \<Rightarrow> bytes \<Rightarrow> bytes option" where
  "Get loc key =
     (case Bucket loc bucketNameData of
        None \<Rightarrow> None
      | Some bd \<Rightarrow> bGet bd key)"

text \<open>
  \<open>GetSeq\<close> has no error to return; the slice \<open>newValue(seq, nil).seqBytes()\<close> is 8
  bytes long, so its panic branch is never taken (lemma \<open>seqBytes_newValue\<close>).
\<close>

definition GetSeq :: "location \<Rightarrow> uint64 \<Rightarrow> bytes option" where
  "GetSeq loc seq =
     (case Bucket loc bucketNameSeq of
        None \<Rightarrow> None
      | Some bs \<Rightarrow>
          (case Value_seqBytes (newValue seq []) of
             Inl err \<Rightarrow> None
           | Inr sb \<Rightarrow> bGet bs sb))"

definition Delete :: "location \<Rightarrow> bytes \<Rightarrow> error option \<times> location" where
  "Delete loc key =
     (case Bucket loc bucketNameData of
        None \<Rightarrow> (Some ErrInvalidBucket, loc)
      | Some bd \<Rightarrow>
     (case bGet bd key of
        None \<Rightarrow> (None, loc)
      | Some v \<Rightarrow>
          if \<not> Value_IsValid v then (Some ErrInvalidValue, loc)
          else
     (case Bucket loc bucketNameSeq of
        None \<Rightarrow> (Some ErrInvalidBucket, loc)
      | Some bs \<Rightarrow>
     (case Value_seqBytes v of
        Inl err \<Rightarrow> (Some err, loc)
      | Inr sb \<Rightarrow>
     (case bDelete (writable loc) bs sb of
        Inl err \<Rightarrow> (Some err, loc)
      | Inr bs' \<Rightarrow>
     (case bDelete (writable loc) bd key of
        Inl err \<Rightarrow> (Some err, setBucket loc bucketNameSeq bs')
      | Inr bd' \<Rightarrow>
          (None, setBucket (setBucket loc bucketNameSeq bs') bucketNameData bd')))))))"

section \<open>The cached pointer and the cursor (cursor.go)\<close>

text \<open>
  \<open>pointer\<close>: a store cursor over the data bucket (nil when the bucket did not exist
  when the cursor was made) and the key and value of the last seek. The cursor reads the
  bucket through the location; a cursor exists only for a bucket that exists, so the
  branch for a missing bucket under a non-nil cursor is never taken.
\<close>

record pointer =
  p_c :: "bolt_cursor option"
  p_key :: bytes
  p_val :: bytes

definition move :: "location \<Rightarrow> pointer \<Rightarrow> bytes \<Rightarrow> bool \<times> pointer" where
  "move loc p k =
     (case p_c p of
        None \<Rightarrow> (False, p)
      | Some cur \<Rightarrow>
          if p_key p = k then (True, p)
          else (case Bucket loc bucketNameData of
                  None \<Rightarrow> (False, p)
                | Some bd \<Rightarrow>
                    (case cSeek bd k of
                       (cur', r) \<Rightarrow>
                         (seek_key r = k,
                          p\<lparr>p_c := Some cur', p_key := seek_key r, p_val := seek_val r\<rparr>))))"

definition pointer_Get :: "location \<Rightarrow> pointer \<Rightarrow> bytes \<Rightarrow> (bytes \<times> bool) \<times> pointer" where
  "pointer_Get loc p k =
     (case move loc p k of
        (ok, p') \<Rightarrow> ((if ok then p_val p' else [], ok), p'))"

definition pointer_Delete :: "location \<Rightarrow> pointer \<Rightarrow> bytes \<Rightarrow> error option \<times> pointer \<times> location" where
  "pointer_Delete loc p k =
     (case move loc p k of
        (ok, p') \<Rightarrow>
          if \<not> ok then (None, p', loc)
          else (case p_c p' of
                  None \<Rightarrow> (Some PanicNilPointer, p', loc)
                | Some cur \<Rightarrow>
                    (case Bucket loc bucketNameData of
                       None \<Rightarrow> (Some ErrInvalidBucket, p', loc)
                     | Some bd \<Rightarrow>
                         (case cDelete (writable loc) bd cur of
                            Inl err \<Rightarrow> (Some err, p', loc)
                          | Inr bd' \<Rightarrow> (None, p', setBucket loc bucketNameData bd')))))"

record Cursor =
  cs :: "bolt_cursor option"
  dp :: pointer
  c_seq :: uint64
  c_key :: bytes
  c_err :: "error option"

text \<open>
  \<open>sync\<close> takes the pair a store primitive returned. \<open>v.Seq()\<close> is called on a value
  that has just passed \<open>IsValid\<close>, so its panic branch is never taken.
\<close>

definition sync :: "Cursor \<Rightarrow> (bytes \<times> bytes) option \<Rightarrow> bool \<times> Cursor" where
  "sync c r =
     (case r of
        None \<Rightarrow> (False, c)
      | Some (seq, key) \<Rightarrow>
          if \<not> Value_IsValid seq then (False, c\<lparr>c_err := Some ErrInvalidKey\<rparr>)
          else (case Value_Seq seq of
                  Inl err \<Rightarrow> (False, c)
                | Inr s \<Rightarrow> (True, c\<lparr>c_seq := s, c_key := key\<rparr>)))"

text \<open>
  The five positioning calls share their shape: a nil guard, one primitive of the store
  cursor over the seq bucket, and \<open>sync\<close> of what it returned.
\<close>

definition position ::
  "location \<Rightarrow> Cursor \<Rightarrow>
     (bolt_bucket \<Rightarrow> bolt_cursor \<Rightarrow> bolt_cursor \<times> (bytes \<times> bytes) option) \<Rightarrow> bool \<times> Cursor" where
  "position loc c prim =
     (case cs c of
        None \<Rightarrow> (False, c)
      | Some cur \<Rightarrow>
          (case Bucket loc bucketNameSeq of
             None \<Rightarrow> (False, c)
           | Some bs \<Rightarrow>
               (case prim bs cur of
                  (cur', r) \<Rightarrow> sync (c\<lparr>cs := Some cur'\<rparr>) r)))"

definition Cursor_First :: "location \<Rightarrow> Cursor \<Rightarrow> bool \<times> Cursor" where
  "Cursor_First loc c = position loc c (\<lambda>bs cur. cFirst bs)"

definition Cursor_Last :: "location \<Rightarrow> Cursor \<Rightarrow> bool \<times> Cursor" where
  "Cursor_Last loc c = position loc c (\<lambda>bs cur. cLast bs)"

definition Cursor_Next :: "location \<Rightarrow> Cursor \<Rightarrow> bool \<times> Cursor" where
  "Cursor_Next loc c = position loc c cNext"

definition Cursor_Prev :: "location \<Rightarrow> Cursor \<Rightarrow> bool \<times> Cursor" where
  "Cursor_Prev loc c = position loc c cPrev"

text \<open>
  \<open>Seek\<close> builds its key with \<open>newValue(seq, nil).seqBytes()\<close>, a slice of 8 bytes, so
  the panic branch of \<open>seqBytes\<close> is never taken.
\<close>

definition Cursor_Seek :: "location \<Rightarrow> Cursor \<Rightarrow> uint64 \<Rightarrow> bool \<times> Cursor" where
  "Cursor_Seek loc c seq =
     (case cs c of
        None \<Rightarrow> (False, c)
      | Some cur \<Rightarrow>
          (case Value_seqBytes (newValue seq []) of
             Inl err \<Rightarrow> (False, c)
           | Inr sb \<Rightarrow> position loc c (\<lambda>bs cur. cSeek bs sb)))"

definition Cursor_Err :: "Cursor \<Rightarrow> error option" where
  "Cursor_Err c = c_err c"

definition Cursor_Seq :: "Cursor \<Rightarrow> uint64" where
  "Cursor_Seq c = c_seq c"

definition Cursor_Key :: "Cursor \<Rightarrow> bytes" where
  "Cursor_Key c = c_key c"

definition Cursor_Data :: "location \<Rightarrow> Cursor \<Rightarrow> (error + bytes) \<times> Cursor" where
  "Cursor_Data loc c =
     (case pointer_Get loc (dp c) (c_key c) of
        ((v, ok), p') \<Rightarrow>
          if \<not> ok then (Inl ErrInvalidKey, c\<lparr>dp := p'\<rparr>)
          else if \<not> Value_IsValid v then (Inl ErrInvalidValue, c\<lparr>dp := p'\<rparr>)
          else (Value_Data v, c\<lparr>dp := p'\<rparr>))"

definition Cursor_Delete :: "location \<Rightarrow> Cursor \<Rightarrow> error option \<times> Cursor \<times> location" where
  "Cursor_Delete loc c =
     (case pointer_Delete loc (dp c) (c_key c) of
        (Some err, p', loc1) \<Rightarrow> (Some err, c\<lparr>dp := p'\<rparr>, loc1)
      | (None, p', loc1) \<Rightarrow>
          (case cs c of
             None \<Rightarrow> (Some PanicNilPointer, c\<lparr>dp := p'\<rparr>, loc1)
           | Some cur \<Rightarrow>
               (case Bucket loc1 bucketNameSeq of
                  None \<Rightarrow> (Some ErrInvalidBucket, c\<lparr>dp := p'\<rparr>, loc1)
                | Some bs \<Rightarrow>
                    (case cDelete (writable loc1) bs cur of
                       Inl err \<Rightarrow> (Some err, c\<lparr>dp := p'\<rparr>, loc1)
                     | Inr bs' \<Rightarrow>
                         (None, c\<lparr>dp := p'\<rparr>, setBucket loc1 bucketNameSeq bs')))))"

text \<open>\<open>Bucket.Cursor\<close>: each store cursor is nil when its bucket does not exist.\<close>

definition Bucket_Cursor :: "location \<Rightarrow> Cursor" where
  "Bucket_Cursor loc =
     \<lparr>cs = (case Bucket loc bucketNameSeq of None \<Rightarrow> None | Some bs \<Rightarrow> Some None),
      dp = \<lparr>p_c = (case Bucket loc bucketNameData of None \<Rightarrow> None | Some bd \<Rightarrow> Some None),
            p_key = [], p_val = []\<rparr>,
      c_seq = 0, c_key = [], c_err = None\<rparr>"

definition DeleteSeq :: "location \<Rightarrow> uint64 \<Rightarrow> error option \<times> location" where
  "DeleteSeq loc seq =
     (case Cursor_Seek loc (Bucket_Cursor loc) seq of
        (ok, c) \<Rightarrow>
          if \<not> ok then (Cursor_Err c, loc)
          else if Cursor_Seq c \<noteq> seq then (None, loc)
          else (case Cursor_Delete loc c of (err, c', loc') \<Rightarrow> (err, loc')))"

section \<open>Vocabulary of the statements\<close>

text \<open>The value of a byte string read as a big-endian number.\<close>

fun be_nat :: "bytes \<Rightarrow> nat" where
  "be_nat [] = 0"
| "be_nat (x # xs) = unat x * 256 ^ length xs + be_nat xs"

text \<open>
  A location as \<open>NewBucket\<close> finds it before the first \<open>Put\<close>: neither sub-bucket exists,
  and the transaction is read-write.
\<close>

definition fresh :: location where
  "fresh = \<lparr>dataB = None, seqB = None, writable = True\<rparr>"

text \<open>The bucket \<open>CreateBucketIfNotExists\<close> hands out, and the counter of the seq bucket.\<close>

definition bucket_or_new :: "bolt_bucket option \<Rightarrow> bolt_bucket" where
  "bucket_or_new ob = (case ob of None \<Rightarrow> new_bucket | Some b \<Rightarrow> b)"

definition counter :: "location \<Rightarrow> uint64" where
  "counter loc = sequence (bucket_or_new (seqB loc))"

text \<open>
  The location that holds the one key \<open>k\<close> with payload \<open>p\<close> under sequence number \<open>n\<close>,
  and \<open>n\<close> calls of \<open>Put\<close> with the same key and payload, \<open>None\<close> when one of them fails.
\<close>

definition single :: "bytes \<Rightarrow> bytes \<Rightarrow> uint64 \<Rightarrow> location" where
  "single k p n =
     \<lparr>dataB = Some \<lparr>pairs = [(k, newValue n p)], sequence = 0\<rparr>,
      seqB = Some \<lparr>pairs = [(PutUint64 n, k)], sequence = n\<rparr>,
      writable = True\<rparr>"

fun Puts :: "nat \<Rightarrow> location \<Rightarrow> bytes \<Rightarrow> bytes \<Rightarrow> location option" where
  "Puts 0 loc k p = Some loc"
| "Puts (Suc n) loc k p =
     (case Puts n loc k p of
        None \<Rightarrow> None
      | Some loc' \<Rightarrow>
          (case Put loc' k p of
             ((s, None), loc'') \<Rightarrow> Some loc''
           | ((s, Some err), loc'') \<Rightarrow> None))"

text \<open>
  Two locations outside the reach of \<open>Put\<close>: a data bucket that holds a value of 3
  bytes, and a data bucket without its seq bucket.
\<close>

definition short_value :: location where
  "short_value =
     \<lparr>dataB = Some \<lparr>pairs = [([0x78], [1, 2, 3])], sequence = 0\<rparr>,
      seqB = Some \<lparr>pairs = [], sequence = 0\<rparr>, writable = True\<rparr>"

definition no_seq :: location where
  "no_seq =
     \<lparr>dataB = Some \<lparr>pairs = [([0x78], newValue 1 [0x76])], sequence = 0\<rparr>,
      seqB = None, writable = True\<rparr>"

text \<open>
  The five positioning calls as one, the pair that the store cursor hands to \<open>sync\<close>
  in each of them (\<open>landed\<close>), and the place the call leaves the store cursor at
  (\<open>moved\<close>).
\<close>

datatype positioning = First | Last | Next | Prev | Seek uint64

definition call :: "location \<Rightarrow> Cursor \<Rightarrow> positioning \<Rightarrow> bool \<times> Cursor" where
  "call loc c m =
     (case m of
        First \<Rightarrow> Cursor_First loc c
      | Last \<Rightarrow> Cursor_Last loc c
      | Next \<Rightarrow> Cursor_Next loc c
      | Prev \<Rightarrow> Cursor_Prev loc c
      | Seek s \<Rightarrow> Cursor_Seek loc c s)"

definition landed :: "location \<Rightarrow> Cursor \<Rightarrow> positioning \<Rightarrow> (bytes \<times> bytes) option" where
  "landed loc c m =
     (case cs c of
        None \<Rightarrow> None
      | Some cur \<Rightarrow>
          (case seqB loc of
             None \<Rightarrow> None
           | Some bs \<Rightarrow>
               (case m of
                  First \<Rightarrow> snd (cFirst bs)
                | Last \<Rightarrow> snd (cLast bs)
                | Next \<Rightarrow> snd (cNext bs cur)
                | Prev \<Rightarrow> snd (cPrev bs cur)
                | Seek s \<Rightarrow> snd (cSeek bs (PutUint64 s)))))"

definition moved :: "location \<Rightarrow> Cursor \<Rightarrow> positioning \<Rightarrow> bolt_cursor" where
  "moved loc c m =
     (case cs c of
        None \<Rightarrow> None
      | Some cur \<Rightarrow>
          (case seqB loc of
             None \<Rightarrow> cur
           | Some bs \<Rightarrow>
               (case m of
                  First \<Rightarrow> fst (cFirst bs)
                | Last \<Rightarrow> fst (cLast bs)
                | Next \<Rightarrow> fst (cNext bs cur)
                | Prev \<Rightarrow> fst (cPrev bs cur)
                | Seek s \<Rightarrow> fst (cSeek bs (PutUint64 s)))))"

text \<open>
  A seq bucket with a key of one byte after a key of 8 bytes, as corruption or a write
  from outside the package can leave it.
\<close>

definition corrupt :: location where
  "corrupt =
     \<lparr>dataB = Some \<lparr>pairs = [([0x78], newValue 1 [])], sequence = 0\<rparr>,
      seqB = Some \<lparr>pairs = [(PutUint64 1, [0x78]), ([1], [0x79])], sequence = 1\<rparr>,
      writable = True\<rparr>"

subsection \<open>The pointer without its cache\<close>

text \<open>
  The specification's always-miss variant of the cached pointer: \<open>move_miss\<close> seeks the
  data cursor on every call and never looks at the cached key. \<open>pointer_Get_miss\<close>,
  \<open>pointer_Delete_miss\<close>, \<open>Cursor_Data_miss\<close> and \<open>Cursor_Delete_miss\<close> are the four
  callers of \<open>move\<close> with \<open>move_miss\<close> in its place.
\<close>

definition move_miss :: "location \<Rightarrow> pointer \<Rightarrow> bytes \<Rightarrow> bool \<times> pointer" where
  "move_miss loc p k =
     (case p_c p of
        None \<Rightarrow> (False, p)
      | Some cur \<Rightarrow>
          (case Bucket loc bucketNameData of
             None \<Rightarrow> (False, p)
           | Some bd \<Rightarrow>
               (case cSeek bd k of
                  (cur', r) \<Rightarrow>
                    (seek_key r = k,
                     p\<lparr>p_c := Some cur', p_key := seek_key r, p_val := seek_val r\<rparr>))))"

definition pointer_Get_miss :: "location \<Rightarrow> pointer \<Rightarrow> bytes \<Rightarrow> (bytes \<times> bool) \<times> pointer" where
  "pointer_Get_miss loc p k =
     (case move_miss loc p k of
        (ok, p') \<Rightarrow> ((if ok then p_val p' else [], ok), p'))"

definition pointer_Delete_miss :: "location \<Rightarrow> pointer \<Rightarrow> bytes \<Rightarrow> error option \<times> pointer \<times> location" where
  "pointer_Delete_miss loc p k =
     (case move_miss loc p k of
        (ok, p') \<Rightarrow>
          if \<not> ok then (None, p', loc)
          else (case p_c p' of
                  None \<Rightarrow> (Some PanicNilPointer, p', loc)
                | Some cur \<Rightarrow>
                    (case Bucket loc bucketNameData of
                       None \<Rightarrow> (Some ErrInvalidBucket, p', loc)
                     | Some bd \<Rightarrow>
                         (case cDelete (writable loc) bd cur of
                            Inl err \<Rightarrow> (Some err, p', loc)
                          | Inr bd' \<Rightarrow> (None, p', setBucket loc bucketNameData bd')))))"

definition Cursor_Data_miss :: "location \<Rightarrow> Cursor \<Rightarrow> (error + bytes) \<times> Cursor" where
  "Cursor_Data_miss loc c =
     (case pointer_Get_miss loc (dp c) (c_key c) of
        ((v, ok), p') \<Rightarrow>
          if \<not> ok then (Inl ErrInvalidKey, c\<lparr>dp := p'\<rparr>)
          else if \<not> Value_IsValid v then (Inl ErrInvalidValue, c\<lparr>dp := p'\<rparr>)
          else (Value_Data v, c\<lparr>dp := p'\<rparr>))"

definition Cursor_Delete_miss :: "location \<Rightarrow> Cursor \<Rightarrow> error option \<times> Cursor \<times> location" where
  "Cursor_Delete_miss loc c =
     (case pointer_Delete_miss loc (dp c) (c_key c) of
        (Some err, p', loc1) \<Rightarrow> (Some err, c\<lparr>dp := p'\<rparr>, loc1)
      | (None, p', loc1) \<Rightarrow>
          (case cs c of
             None \<Rightarrow> (Some PanicNilPointer, c\<lparr>dp := p'\<rparr>, loc1)
           | Some cur \<Rightarrow>
               (case Bucket loc1 bucketNameSeq of
                  None \<Rightarrow> (Some ErrInvalidBucket, c\<lparr>dp := p'\<rparr>, loc1)
                | Some bs \<Rightarrow>
                    (case cDelete (writable loc1) bs cur of
                       Inl err \<Rightarrow> (Some err, c\<lparr>dp := p'\<rparr>, loc1)
                     | Inr bs' \<Rightarrow>
                         (None, c\<lparr>dp := p'\<rparr>, setBucket loc1 bucketNameSeq bs')))))"

text \<open>
  The store keeps the pairs of a bucket in strictly ascending key order. A pointer is
  coherent with the data bucket when its cached key, unless empty, is the key at the
  place of its cursor and its cached value is the value stored there. \<open>resolve_all\<close> runs
  \<open>pointer.Get\<close> over a list of keys on an unchanged location and returns the results
  and the pointer it ends with.
\<close>

definition sorted_bucket :: "bolt_bucket \<Rightarrow> bool" where
  "sorted_bucket b = sorted_wrt (<) (map fst (pairs b))"

definition sorted_opt :: "bolt_bucket option \<Rightarrow> bool" where
  "sorted_opt ob = (case ob of None \<Rightarrow> True | Some b \<Rightarrow> sorted_bucket b)"

definition coherent :: "location \<Rightarrow> pointer \<Rightarrow> bool" where
  "coherent loc p =
     (case p_c p of
        None \<Rightarrow> True
      | Some cur \<Rightarrow>
          (case dataB loc of
             None \<Rightarrow> False
           | Some bd \<Rightarrow>
               p_key p = [] \<or>
               (case cur of
                  None \<Rightarrow> False
                | Some i \<Rightarrow> keyValue bd i = Some (p_key p, p_val p))))"

fun resolve_all :: "location \<Rightarrow> pointer \<Rightarrow> bytes list \<Rightarrow> (bytes \<times> bool) list \<times> pointer" where
  "resolve_all loc p [] = ([], p)"
| "resolve_all loc p (k # ks) =
     (case pointer_Get loc p k of
        (r, p') \<Rightarrow> (case resolve_all loc p' ks of (rs, p'') \<Rightarrow> (r # rs, p'')))"

fun resolve_all_miss :: "location \<Rightarrow> pointer \<Rightarrow> bytes list \<Rightarrow> (bytes \<times> bool) list \<times> pointer" where
  "resolve_all_miss loc p [] = ([], p)"
| "resolve_all_miss loc p (k # ks) =
     (case pointer_Get_miss loc p k of
        (r, p') \<Rightarrow> (case resolve_all_miss loc p' ks of (rs, p'') \<Rightarrow> (r # rs, p'')))"

subsection \<open>The invariant of the two indices\<close>

text \<open>
  \<open>mirrored\<close>: the sub-buckets exist together and are in key order; every data entry
  has a non-empty key and a valid value, and the seq bucket maps the first 8 bytes of
  the value back to the key; every seq entry has a key of 8 bytes and is the first 8
  bytes of the value stored under the key it names. \<open>below_counter\<close>: no live sequence
  number lies above the counter of the seq bucket. \<open>pointer_ok\<close>: the data cursor exists
  exactly when the data bucket does, and a cached key that is live is the key at the
  place of the data cursor (a cached key that is not live is left over from a deletion
  or a seek that found nothing). \<open>cursor_ok\<close>: the pointer of the cursor is in this
  state and the seq cursor exists exactly when the seq bucket does. \<open>on_entry\<close>: the seq
  cursor stands on an entry and the cursor's key is the key stored there.
\<close>

definition mirrored :: "location \<Rightarrow> bool" where
  "mirrored loc =
     (case dataB loc of
        None \<Rightarrow> seqB loc = None
      | Some bd \<Rightarrow>
          (case seqB loc of
             None \<Rightarrow> False
           | Some bs \<Rightarrow>
               sorted_bucket bd \<and> sorted_bucket bs \<and>
               (\<forall>k v. bGet bd k = Some v \<longrightarrow>
                  k \<noteq> [] \<and> 8 \<le> length v \<and> bGet bs (take 8 v) = Some k) \<and>
               (\<forall>sk k. bGet bs sk = Some k \<longrightarrow>
                  length sk = 8 \<and> (\<exists>v. bGet bd k = Some v \<and> take 8 v = sk))))"


definition pointer_ok :: "location \<Rightarrow> pointer \<Rightarrow> bool" where
  "pointer_ok loc p =
     (case dataB loc of
        None \<Rightarrow> p_c p = None
      | Some bd \<Rightarrow>
          (case p_c p of
             None \<Rightarrow> False
           | Some cur \<Rightarrow>
               bGet bd (p_key p) = None \<or>
               (case cur of
                  None \<Rightarrow> False
                | Some i \<Rightarrow> keyValue bd i = Some (p_key p, p_val p))))"

definition cursor_ok :: "location \<Rightarrow> Cursor \<Rightarrow> bool" where
  "cursor_ok loc c = (pointer_ok loc (dp c) \<and> (cs c = None) = (seqB loc = None))"

definition on_entry :: "location \<Rightarrow> Cursor \<Rightarrow> bool" where
  "on_entry loc c =
     (case cs c of
        None \<Rightarrow> False
      | Some cur \<Rightarrow>
          (case cur of
             None \<Rightarrow> False
           | Some i \<Rightarrow>
               (case seqB loc of
                  None \<Rightarrow> False
                | Some bs \<Rightarrow> map_option snd (keyValue bs i) = Some (c_key c))))"

text \<open>A location with two live entries, under the sequence numbers 1 and 3.\<close>

definition two_entries :: location where
  "two_entries =
     \<lparr>dataB = Some \<lparr>pairs = [([0x78], newValue 1 [0x76]), ([0x79], newValue 3 [0x77])], sequence = 0\<rparr>,
      seqB = Some \<lparr>pairs = [(PutUint64 1, [0x78]), (PutUint64 3, [0x79])], sequence = 3\<rparr>,
      writable = True\<rparr>"

subsection \<open>Runs of operations\<close>




















subsection \<open>Traversal loops\<close>

text \<open>
  The loops \<open>for ok := c.First(); ok; ok = c.Next()\<close> and
  \<open>for ok := c.Last(); ok; ok = c.Prev()\<close> of the callers, collecting \<open>(c.Seq(), c.Key())\<close>
  at every position. Each step that returns true moves the store cursor by one entry of the
  seq bucket, so the number of entries from the cursor to the end (to the start) decreases
  and the loops terminate.
\<close>

definition after_cursor :: "location \<Rightarrow> Cursor \<Rightarrow> nat" where
  "after_cursor loc c =
     (case cs c of
        None \<Rightarrow> 0
      | Some cur \<Rightarrow>
          (case cur of
             None \<Rightarrow> 0
           | Some i \<Rightarrow>
               (case seqB loc of
                  None \<Rightarrow> 0
                | Some bs \<Rightarrow> length (pairs bs) - i)))"

definition before_cursor :: "location \<Rightarrow> Cursor \<Rightarrow> nat" where
  "before_cursor loc c =
     (case cs c of
        None \<Rightarrow> 0
      | Some cur \<Rightarrow> (case cur of None \<Rightarrow> 0 | Some i \<Rightarrow> i))"

function next_loop :: "location \<Rightarrow> Cursor \<Rightarrow> (uint64 \<times> bytes) list" where
  "next_loop loc c =
     (if fst (Cursor_Next loc c)
      then (Cursor_Seq (snd (Cursor_Next loc c)), Cursor_Key (snd (Cursor_Next loc c)))
             # next_loop loc (snd (Cursor_Next loc c))
      else [])"
  by pat_completeness auto
termination
proof (relation "measure (\<lambda>(loc, c). after_cursor loc c)")
  show "wf (measure (\<lambda>(loc, c). after_cursor loc c))" by simp
next
  fix loc c
  assume a: "fst (Cursor_Next loc c)"
  obtain c' where n: "Cursor_Next loc c = (True, c')" using a by (cases "Cursor_Next loc c") auto
  then obtain i bs where
    x: "cs c = Some (Some i)" "seqB loc = Some bs" "Suc i < length (pairs bs)"
       "cs c' = Some (Some (Suc i))"
    by (auto simp: Cursor_Next_def position_def sync_def Bucket_def cNext_def
        split: option.splits prod.splits if_splits sum.splits)
  with n show "((loc, snd (Cursor_Next loc c)), loc, c) \<in> measure (\<lambda>(loc, c). after_cursor loc c)"
    by (simp add: after_cursor_def)
qed

function prev_loop :: "location \<Rightarrow> Cursor \<Rightarrow> (uint64 \<times> bytes) list" where
  "prev_loop loc c =
     (if fst (Cursor_Prev loc c)
      then (Cursor_Seq (snd (Cursor_Prev loc c)), Cursor_Key (snd (Cursor_Prev loc c)))
             # prev_loop loc (snd (Cursor_Prev loc c))
      else [])"
  by pat_completeness auto
termination
proof (relation "measure (\<lambda>(loc, c). before_cursor loc c)")
  show "wf (measure (\<lambda>(loc, c). before_cursor loc c))" by simp
next
  fix loc c
  assume a: "fst (Cursor_Prev loc c)"
  obtain c' where n: "Cursor_Prev loc c = (True, c')" using a by (cases "Cursor_Prev loc c") auto
  then obtain i where x: "cs c = Some (Some i)" "0 < i" "cs c' = Some (Some (i - 1))"
    by (auto simp: Cursor_Prev_def position_def sync_def Bucket_def cPrev_def
        split: option.splits prod.splits if_splits sum.splits)
  with n show "((loc, snd (Cursor_Prev loc c)), loc, c) \<in> measure (\<lambda>(loc, c). before_cursor loc c)"
    by (simp add: before_cursor_def)
qed

declare next_loop.simps [simp del] prev_loop.simps [simp del]

definition forward :: "location \<Rightarrow> (uint64 \<times> bytes) list" where
  "forward loc =
     (case Cursor_First loc (Bucket_Cursor loc) of
        (ok, c) \<Rightarrow> if ok then (Cursor_Seq c, Cursor_Key c) # next_loop loc c else [])"

definition backward :: "location \<Rightarrow> (uint64 \<times> bytes) list" where
  "backward loc =
     (case Cursor_Last loc (Bucket_Cursor loc) of
        (ok, c) \<Rightarrow> if ok then (Cursor_Seq c, Cursor_Key c) # prev_loop loc c else [])"

text \<open>
  The entries of the seq bucket in key order, with the sequence number decoded from the key.
\<close>

definition seq_of :: "bytes \<Rightarrow> uint64" where
  "seq_of sk = (case Uint64 (take 8 sk) of Inl e \<Rightarrow> 0 | Inr s \<Rightarrow> s)"

definition entry :: "bytes \<times> bytes \<Rightarrow> uint64 \<times> bytes" where
  "entry p = (seq_of (fst p), snd p)"

definition entries :: "location \<Rightarrow> (uint64 \<times> bytes) list" where
  "entries loc = (case seqB loc of None \<Rightarrow> [] | Some bs \<Rightarrow> map entry (pairs bs))"

section \<open>The codec: round trip and order\<close>

lemma length_PutUint64: "length (PutUint64 v) = 8"
  by (simp add: PutUint64_def)

lemma Uint64_PutUint64: "Uint64 (PutUint64 v) = Inr v"
  unfolding PutUint64_def Uint64_def
  apply simp
  apply (rule bit_word_eqI)
  apply (simp add: bit_simps less_diff_conv2 cong: conj_cong)
  apply (case_tac "bit v n")
   apply simp_all
  apply linarith
  done

lemma PutUint64_inj: "(PutUint64 a = PutUint64 b) = (a = b)"
  by (metis Uint64_PutUint64 sum.inject(2))

lemma digit_lt:
  assumes "a < (B::nat)" and "x < y"
  shows "x * B + a < y * B + b"
proof -
  have "x * B + a < x * B + B" using assms(1) by simp
  also have "\<dots> = Suc x * B" by simp
  also have "\<dots> \<le> y * B" using assms(2) by (intro mult_le_mono1) simp
  also have "\<dots> \<le> y * B + b" by simp
  finally show ?thesis .
qed

lemma be_nat_bound: "be_nat xs < 256 ^ length xs"
proof (induction xs)
  case Nil
  show ?case by simp
next
  case (Cons x xs)
  have "unat x < 256" using unsigned_less [of x, where ?'a = nat] by simp
  with Cons have "unat x * 256 ^ length xs + be_nat xs < 256 * 256 ^ length xs + 0"
    by (intro digit_lt)
  then show ?case by simp
qed

lemma be_nat_less:
  "length xs = length ys \<Longrightarrow> (xs < ys) = (be_nat xs < be_nat ys)"
proof (induction xs ys rule: list_induct2)
  case Nil
  show ?case by simp
next
  case (Cons x xs y ys)
  let ?B = "256 ^ length ys :: nat"
  have bx: "be_nat xs < ?B" using be_nat_bound [of xs] Cons.hyps by simp
  have by': "be_nat ys < ?B" using be_nat_bound [of ys] by simp
  show ?case
  proof (cases "x = y")
    case True
    with Cons show ?thesis by simp
  next
    case False
    show ?thesis
    proof (cases "x < y")
      case True
      then have "unat x < unat y" by (simp add: word_less_nat_alt)
      with bx have "unat x * ?B + be_nat xs < unat y * ?B + be_nat ys"
        by (intro digit_lt)
      with True Cons.hyps show ?thesis by simp
    next
      case nlt: False
      with False have "y < x" by simp
      then have "unat y < unat x" by (simp add: word_less_nat_alt)
      with by' have "unat y * ?B + be_nat ys < unat x * ?B + be_nat xs"
        by (intro digit_lt)
      with nlt False Cons.hyps show ?thesis by simp
    qed
  qed
qed

lemma digit_step: "(n::nat) mod (a * 256) = (n div a mod 256) * a + n mod a"
  by (simp add: mod_mult2_eq)

lemma be_nat_PutUint64: "be_nat (PutUint64 v) = unat v"
proof -
  define n where "n = unat v"
  have n: "n < 256 ^ 8" using unsigned_less [of v, where ?'a = nat] by (simp add: n_def)
  have "n = n mod (256 ^ 7 * 256)" using n by simp
  also have "\<dots> = (n div 256 ^ 7 mod 256) * 256 ^ 7 + n mod (256 ^ 6 * 256)"
    by (subst digit_step) simp
  also have "n mod (256 ^ 6 * 256) = (n div 256 ^ 6 mod 256) * 256 ^ 6 + n mod (256 ^ 5 * 256)"
    by (subst digit_step) simp
  also have "n mod (256 ^ 5 * 256) = (n div 256 ^ 5 mod 256) * 256 ^ 5 + n mod (256 ^ 4 * 256)"
    by (subst digit_step) simp
  also have "n mod (256 ^ 4 * 256) = (n div 256 ^ 4 mod 256) * 256 ^ 4 + n mod (256 ^ 3 * 256)"
    by (subst digit_step) simp
  also have "n mod (256 ^ 3 * 256) = (n div 256 ^ 3 mod 256) * 256 ^ 3 + n mod (256 ^ 2 * 256)"
    by (subst digit_step) simp
  also have "n mod (256 ^ 2 * 256) = (n div 256 ^ 2 mod 256) * 256 ^ 2 + n mod (256 ^ 1 * 256)"
    by (subst digit_step) simp
  also have "n mod (256 ^ 1 * 256) = (n div 256 ^ 1 mod 256) * 256 ^ 1 + n mod 256"
    by (subst digit_step) simp
  finally have "n = (n div 256 ^ 7 mod 256) * 256 ^ 7 + ((n div 256 ^ 6 mod 256) * 256 ^ 6 +
     ((n div 256 ^ 5 mod 256) * 256 ^ 5 + ((n div 256 ^ 4 mod 256) * 256 ^ 4 +
     ((n div 256 ^ 3 mod 256) * 256 ^ 3 + ((n div 256 ^ 2 mod 256) * 256 ^ 2 +
     ((n div 256 ^ 1 mod 256) * 256 ^ 1 + n mod 256))))))" .
  note expand = this
  have d: "unat (ucast (drop_bit k v) :: byte) = n div 2 ^ k mod 256" for k
    unfolding unsigned_ucast_eq unat_drop_bit_eq
    by (simp add: take_bit_eq_mod drop_bit_eq_div n_def)
  have d0: "unat (ucast v :: byte) = n mod 256"
    by (simp add: unsigned_ucast_eq take_bit_eq_mod n_def)
  have "be_nat (PutUint64 v) = (n div 2 ^ 56 mod 256) * 256 ^ 7 + ((n div 2 ^ 48 mod 256) * 256 ^ 6 +
     ((n div 2 ^ 40 mod 256) * 256 ^ 5 + ((n div 2 ^ 32 mod 256) * 256 ^ 4 +
     ((n div 2 ^ 24 mod 256) * 256 ^ 3 + ((n div 2 ^ 16 mod 256) * 256 ^ 2 +
     ((n div 2 ^ 8 mod 256) * 256 ^ 1 + n mod 256))))))"
    unfolding PutUint64_def be_nat.simps d d0 by simp
  also have "\<dots> = n" by (subst (9) expand) simp
  finally show ?thesis by (simp add: n_def)
qed

lemma PutUint64_less: "(PutUint64 a < PutUint64 b) = (a < b)"
  using be_nat_less [of "PutUint64 a" "PutUint64 b"]
  by (simp add: length_PutUint64 be_nat_PutUint64 word_less_nat_alt)

lemma PutUint64_le: "(PutUint64 a \<le> PutUint64 b) = (a \<le> b)"
  by (simp add: le_less PutUint64_less PutUint64_inj)

lemma IsValid_newValue: "Value_IsValid (newValue s p)"
  by (simp add: Value_IsValid_def newValue_def length_PutUint64)

lemma seqBytes_newValue: "Value_seqBytes (newValue s p) = Inr (PutUint64 s)"
  by (simp add: Value_seqBytes_def newValue_def length_PutUint64)

lemma Seq_newValue: "Value_Seq (newValue s p) = Inr s"
  by (simp add: Value_Seq_def newValue_def length_PutUint64 Uint64_PutUint64)

lemma Data_newValue: "Value_Data (newValue s p) = Inr p"
  by (simp add: Value_Data_def newValue_def length_PutUint64)

lemma PutUint64_bytes:
  "PutUint64 (ucast (b7::byte) OR push_bit 8 (ucast (b6::byte)) OR push_bit 16 (ucast (b5::byte))
       OR push_bit 24 (ucast (b4::byte)) OR push_bit 32 (ucast (b3::byte))
       OR push_bit 40 (ucast (b2::byte)) OR push_bit 48 (ucast (b1::byte))
       OR push_bit 56 (ucast (b0::byte))) = [b0, b1, b2, b3, b4, b5, b6, b7]"
  unfolding PutUint64_def
  apply simp
  apply (intro conjI)
         apply (rule bit_word_eqI, auto simp: bit_simps dest: bit_imp_le_length)+
  done

lemma list8:
  "length (b::'a list) = 8 \<Longrightarrow> \<exists>b0 b1 b2 b3 b4 b5 b6 b7. b = [b0, b1, b2, b3, b4, b5, b6, b7]"
  by (auto simp: eval_nat_numeral length_Suc_conv)

lemma PutUint64_Uint64:
  assumes "length b = 8" and "Uint64 b = Inr s"
  shows "PutUint64 s = b"
proof -
  from list8 [OF assms(1)] obtain b0 b1 b2 b3 b4 b5 b6 b7
    where b: "b = [b0, b1, b2, b3, b4, b5, b6, b7]" by blast
  from assms(2) show ?thesis
    unfolding b by (auto simp: Uint64_def PutUint64_bytes)
qed

lemma length_newValue: "length (newValue s p) = 8 + length p"
  by (simp add: newValue_def length_PutUint64)

lemma take8_newValue: "take 8 (newValue s p) = PutUint64 s"
  by (simp add: newValue_def length_PutUint64)

lemma PutUint64_not_Nil: "PutUint64 s \<noteq> []"
  by (simp add: PutUint64_def)

lemma word_less_succ: "s \<noteq> - 1 \<Longrightarrow> s < s + 1" for s :: uint64
proof -
  assume "s \<noteq> - 1"
  then have "1 + s \<noteq> 0" using max_word_wrap [of s] by (auto simp: add.commute)
  then have "unat (1 + s) = Suc (unat s)" by (rule unatSuc)
  then show ?thesis by (simp add: word_less_nat_alt add.commute)
qed

text \<open>
  C7. For every sequence number \<open>s\<close> and every payload \<open>p\<close> (the empty payload and the
  payloads of zero bytes are payloads like any other), the encoding \<open>newValue s p\<close> has
  length \<open>8 + len p\<close> and is valid; its first 8 bytes are the big-endian encoding of
  \<open>s\<close> and decode to \<open>s\<close>; the bytes after the first 8 are \<open>p\<close>.
\<close>

theorem newValue_round_trip:
  "length (newValue s p) = 8 + length p \<and> Value_IsValid (newValue s p) \<and>
   Value_seqBytes (newValue s p) = Inr (PutUint64 s) \<and>
   Uint64 (take 8 (newValue s p)) = Inr s \<and>
   Value_Seq (newValue s p) = Inr s \<and> Value_Data (newValue s p) = Inr p"
  by (simp add: IsValid_newValue seqBytes_newValue Seq_newValue Data_newValue)
    (simp add: newValue_def length_PutUint64 Uint64_PutUint64)

section \<open>The store: lookups after updates\<close>

lemma map_of_insert_pair: "map_of (insert_pair k v ps) = (map_of ps)(k \<mapsto> v)"
  by (induction ps) (auto simp: fun_upd_twist)

lemma map_of_remove_key: "map_of (remove_key k ps) = (map_of ps)(k := None)"
  by (induction ps) (auto simp: remove_key_def fun_upd_twist)

lemma bGet_bPut:
  "bPut w b k v = Inr b' \<Longrightarrow> bGet b' k' = (if k' = k then Some v else bGet b k')"
  by (auto simp: bPut_def bGet_def map_of_insert_pair split: if_splits)

lemma bGet_bDelete:
  "bDelete w b k = Inr b' \<Longrightarrow> bGet b' k' = (if k' = k then None else bGet b k')"
  by (auto simp: bDelete_def bGet_def map_of_remove_key split: if_splits)

lemma sequence_bPut: "bPut w b k v = Inr b' \<Longrightarrow> sequence b' = sequence b"
  by (auto simp: bPut_def split: if_splits)

lemma sequence_bDelete: "bDelete w b k = Inr b' \<Longrightarrow> sequence b' = sequence b"
  by (auto simp: bDelete_def split: if_splits)

lemma bGet_NextSequence:
  "NextSequence w b = Inr (s, b') \<Longrightarrow> bGet b' k = bGet b k \<and> s = sequence b + 1 \<and> sequence b' = s"
  by (auto simp: NextSequence_def bGet_def split: if_splits)

lemma bPut_Inr: "bPut w b k v = Inr b' \<Longrightarrow> w \<and> k \<noteq> []"
  by (simp add: bPut_def split: if_splits)

lemma GetSeq_eq: "GetSeq loc s = (case seqB loc of None \<Rightarrow> None | Some bs \<Rightarrow> bGet bs (PutUint64 s))"
  by (simp add: GetSeq_def Bucket_def seqBytes_newValue split: option.splits)

lemma Get_eq: "Get loc k = (case dataB loc of None \<Rightarrow> None | Some bd \<Rightarrow> bGet bd k)"
  by (simp add: Get_def Bucket_def split: option.splits)

section \<open>Put\<close>

lemma delete_current_Inr:
  "delete_current w bd bs key = Inr (bd', bs') \<Longrightarrow>
     bGet bd' key = None \<and> sequence bs' = sequence bs \<and>
     (\<forall>k'. k' \<noteq> key \<longrightarrow> bGet bd' k' = bGet bd k') \<and>
     (case bGet bd key of None \<Rightarrow> bd' = bd \<and> bs' = bs
      | Some v \<Rightarrow> Value_IsValid v \<and> (\<forall>sk. bGet bs' sk = (if sk = take 8 v then None else bGet bs sk)))"
  unfolding delete_current_def
  by (auto simp: Value_seqBytes_def Value_IsValid_def bGet_bDelete sequence_bDelete
      split: option.splits if_splits sum.splits)

lemma Put_steps:
  assumes "Put loc key val = ((s, None), loc')"
  shows "\<exists>bd1 bs1 bs2 bs3 bd2.
     delete_current (writable loc) (bucket_or_new (dataB loc)) (bucket_or_new (seqB loc)) key
       = Inr (bd1, bs1) \<and>
     NextSequence (writable loc) bs1 = Inr (s, bs2) \<and>
     bPut (writable loc) bs2 (PutUint64 s) key = Inr bs3 \<and>
     bPut (writable loc) bd1 key (newValue s val) = Inr bd2 \<and>
     loc' = loc\<lparr>dataB := Some bd2, seqB := Some bs3\<rparr>"
  using assms unfolding Put_def
  by (auto simp: CreateBucketIfNotExists_def Bucket_def setBucket_def store_def seqBytes_newValue
      bucket_or_new_def
      split: sum.splits prod.splits option.splits if_splits)

lemma Put_success_full:
  assumes "Put loc key val = ((s, None), loc')"
  shows "\<exists>bd bs. dataB loc' = Some bd \<and> seqB loc' = Some bs \<and> writable loc' = writable loc \<and>
     writable loc \<and> key \<noteq> [] \<and>
     s = sequence (bucket_or_new (seqB loc)) + 1 \<and> sequence bs = s \<and>
     (\<forall>k'. bGet bd k' = (if k' = key then Some (newValue s val)
                          else bGet (bucket_or_new (dataB loc)) k')) \<and>
     (\<forall>sk. bGet bs sk =
        (if sk = PutUint64 s then Some key
         else case bGet (bucket_or_new (dataB loc)) key of
                None \<Rightarrow> bGet (bucket_or_new (seqB loc)) sk
              | Some v \<Rightarrow> if sk = take 8 v then None else bGet (bucket_or_new (seqB loc)) sk)) \<and>
     (\<forall>v. bGet (bucket_or_new (dataB loc)) key = Some v \<longrightarrow> Value_IsValid v)"
proof -
  let ?bd = "bucket_or_new (dataB loc)" and ?bs = "bucket_or_new (seqB loc)"
  from Put_steps [OF assms] obtain bd1 bs1 bs2 bs3 bd2 where
    dc: "delete_current (writable loc) ?bd ?bs key = Inr (bd1, bs1)" and
    ns: "NextSequence (writable loc) bs1 = Inr (s, bs2)" and
    ps: "bPut (writable loc) bs2 (PutUint64 s) key = Inr bs3" and
    pd: "bPut (writable loc) bd1 key (newValue s val) = Inr bd2" and
    loc': "loc' = loc\<lparr>dataB := Some bd2, seqB := Some bs3\<rparr>"
    by blast
  note d = delete_current_Inr [OF dc]
  note n = bGet_NextSequence [OF ns]
  have w: "writable loc" "key \<noteq> []" using bPut_Inr [OF pd] by simp_all
  have s: "s = sequence ?bs + 1" using d n by simp
  have sq: "sequence bs3 = s" using sequence_bPut [OF ps] n by simp
  have gd: "bGet bd2 k' = (if k' = key then Some (newValue s val) else bGet ?bd k')" for k'
    using bGet_bPut [OF pd, of k'] d by simp
  have gs: "bGet bs3 sk =
        (if sk = PutUint64 s then Some key
         else case bGet ?bd key of
                None \<Rightarrow> bGet ?bs sk
              | Some v \<Rightarrow> if sk = take 8 v then None else bGet ?bs sk)" for sk
    using bGet_bPut [OF ps, of sk] n d by (simp split: option.splits)
  have v: "bGet ?bd key = Some v \<Longrightarrow> Value_IsValid v" for v
    using d by simp
  show ?thesis
    using w s sq gd gs v by (simp add: loc')
qed

lemma Put_fresh:
  assumes "k \<noteq> []" "length k \<le> MaxKeySize" "8 + length p \<le> MaxValueSize"
  shows "Put fresh k p = ((1, None), single k p 1)"
  using assms
  by (simp add: Put_def fresh_def single_def CreateBucketIfNotExists_def Bucket_def setBucket_def
      store_def delete_current_def bGet_def new_bucket_def NextSequence_def seqBytes_newValue
      bPut_def length_newValue length_PutUint64 PutUint64_not_Nil MaxKeySize_def MaxValueSize_def)

lemma Put_single:
  assumes "k \<noteq> []" "length k \<le> MaxKeySize" "8 + length p' \<le> MaxValueSize"
  shows "Put (single k p n) k p' = ((n + 1, None), single k p' (n + 1))"
  using assms
  by (simp add: Put_def single_def CreateBucketIfNotExists_def Bucket_def setBucket_def
      store_def delete_current_def bGet_def NextSequence_def seqBytes_newValue IsValid_newValue
      bPut_def bDelete_def remove_key_def length_newValue take8_newValue
      length_PutUint64 PutUint64_not_Nil MaxKeySize_def MaxValueSize_def)

lemma Puts_fresh:
  assumes "k \<noteq> []" "length k \<le> MaxKeySize" "8 + length p \<le> MaxValueSize"
  shows "Puts (Suc n) fresh k p = Some (single k p (of_nat (Suc n)))"
proof (induction n)
  case 0
  show ?case using Put_fresh [OF assms] by simp
next
  case (Suc n)
  show ?case using Suc Put_single [OF assms, of p "of_nat (Suc n)"] by (simp add: add.commute)
qed

text \<open>
  C1. When \<open>Put loc k p\<close> returns the sequence number \<open>s\<close> and no error, \<open>Get k\<close> on the
  location it leaves returns the value \<open>newValue s p\<close>, which is valid, whose \<open>Seq()\<close> is
  \<open>s\<close> and whose \<open>Data()\<close> is \<open>p\<close>, and \<open>GetSeq s\<close> returns \<open>k\<close>; when the seq bucket
  did not exist before the call (a fresh bucket), \<open>s = 1\<close>.
\<close>

theorem Put_then_Get:
  assumes "Put loc k p = ((s, None), loc')"
  shows "Get loc' k = Some (newValue s p) \<and> Value_IsValid (newValue s p) \<and>
     Value_Seq (newValue s p) = Inr s \<and> Value_Data (newValue s p) = Inr p \<and>
     GetSeq loc' s = Some k \<and> (seqB loc = None \<longrightarrow> s = 1)"
  using Put_success_full [OF assms]
  by (auto simp: Get_eq GetSeq_eq IsValid_newValue Seq_newValue Data_newValue bucket_or_new_def
      new_bucket_def)

theorem Put_then_Get_witness:
  "Put fresh [0x78] [0x76] = ((1, None), single [0x78] [0x76] 1) \<and>
   Get (single [0x78] [0x76] 1) [0x78] = Some [0, 0, 0, 0, 0, 0, 0, 1, 0x76] \<and>
   Value_IsValid [0, 0, 0, 0, 0, 0, 0, 1, 0x76] \<and>
   Value_Seq [0, 0, 0, 0, 0, 0, 0, 1, 0x76] = Inr 1 \<and>
   Value_Data [0, 0, 0, 0, 0, 0, 0, 1, 0x76] = Inr [0x76] \<and>
   GetSeq (single [0x78] [0x76] 1) 1 = Some [0x78] \<and> seqB fresh = None"
proof -
  have k: "[0x78 :: byte] \<noteq> []" "length [0x78 :: byte] \<le> MaxKeySize"
    "8 + length [0x76 :: byte] \<le> MaxValueSize"
    by (simp_all add: MaxKeySize_def MaxValueSize_def)
  have nv: "newValue 1 [0x76] = [0, 0, 0, 0, 0, 0, 0, 1, 0x76]"
    by (simp add: newValue_def PutUint64_def)
  have 1: "Put fresh [0x78] [0x76] = ((1, None), single [0x78] [0x76] 1)"
    by (rule Put_fresh [OF k])
  show ?thesis using Put_then_Get [OF 1] 1 by (simp add: nv fresh_def)
qed

text \<open>
  C3, as amended. When \<open>Put loc k p1\<close> returns \<open>s1\<close> and a second \<open>Put\<close> of the same key
  returns \<open>s2\<close>, both without error, then \<open>s2 = s1 + 1\<close> modulo \<open>2^64\<close>, so \<open>s2 > s1\<close>
  unless \<open>s1\<close> is the largest 64-bit number; \<open>GetSeq s1\<close> is absent, \<open>GetSeq s2\<close> is
  \<open>k\<close> and \<open>Get k\<close> holds the payload \<open>p2\<close>. Each of the two calls, the insert and the
  overwrite, advances the counter of the seq bucket by exactly one and returns its new
  value.
\<close>

theorem Put_overwrite:
  assumes "Put loc k p1 = ((s1, None), loc1)" and "Put loc1 k p2 = ((s2, None), loc2)"
  shows "s2 = s1 + 1 \<and> (s1 \<noteq> - 1 \<longrightarrow> s1 < s2) \<and>
     GetSeq loc2 s1 = None \<and> GetSeq loc2 s2 = Some k \<and>
     Get loc2 k = Some (newValue s2 p2) \<and> Value_Data (newValue s2 p2) = Inr p2 \<and>
     s1 = counter loc + 1 \<and> counter loc1 = s1 \<and> counter loc2 = s2"
proof -
  from Put_success_full [OF assms(1)] obtain bd1 bs1 where
    1: "dataB loc1 = Some bd1" "seqB loc1 = Some bs1" "sequence bs1 = s1"
       "bGet bd1 k = Some (newValue s1 p1)" "s1 = sequence (bucket_or_new (seqB loc)) + 1"
    by auto
  from Put_success_full [OF assms(2)] 1 obtain bd2 bs2 where
    2: "dataB loc2 = Some bd2" "seqB loc2 = Some bs2" "sequence bs2 = s2" "s2 = s1 + 1"
       "bGet bd2 k = Some (newValue s2 p2)"
       "\<forall>sk. bGet bs2 sk = (if sk = PutUint64 s2 then Some k
           else if sk = PutUint64 s1 then None else bGet bs1 sk)"
    by (auto simp: bucket_or_new_def take8_newValue)
  have ne: "PutUint64 s1 \<noteq> PutUint64 s2" using 2(4) by (simp add: PutUint64_inj)
  have lt: "s1 < s1 + 1" if "s1 \<noteq> - 1"
    using that by (rule word_less_succ)
  show ?thesis using 1 2 ne lt
    by (simp add: Get_eq GetSeq_eq Data_newValue counter_def bucket_or_new_def [of "Some b" for b])
qed

text \<open>
  C3 as stated fails where the counter wraps around: \<open>2^64 - 2\<close> calls of \<open>Put\<close> on a fresh
  location all succeed; the next one returns \<open>2^64 - 1\<close>, and the overwrite after it
  returns \<open>0\<close>, which is not greater.
\<close>

theorem Put_overwrite_wraps:
  "Puts 18446744073709551614 fresh [0x78] [] = Some (single [0x78] [] 18446744073709551614) \<and>
   Put (single [0x78] [] 18446744073709551614) [0x78] [] =
     ((18446744073709551615, None), single [0x78] [] 18446744073709551615) \<and>
   Put (single [0x78] [] 18446744073709551615) [0x78] [] = ((0, None), single [0x78] [] 0) \<and>
   \<not> (18446744073709551615 :: uint64) < 0"
proof -
  have k: "[0x78 :: byte] \<noteq> []" "length [0x78 :: byte] \<le> MaxKeySize"
    "8 + length ([] :: bytes) \<le> MaxValueSize"
    by (simp_all add: MaxKeySize_def MaxValueSize_def)
  have "Suc 18446744073709551613 = 18446744073709551614" by simp
  with Puts_fresh [OF k, of 18446744073709551613]
  have 1: "Puts 18446744073709551614 fresh [0x78] [] = Some (single [0x78] [] 18446744073709551614)"
    by simp
  have 2: "Put (single [0x78] [] 18446744073709551614) [0x78] [] =
     ((18446744073709551615, None), single [0x78] [] 18446744073709551615)"
    using Put_single [OF k, of "[]" 18446744073709551614] by simp
  have m: "(18446744073709551615 :: uint64) = - 1" by simp
  have 3: "Put (single [0x78] [] 18446744073709551615) [0x78] [] = ((0, None), single [0x78] [] 0)"
    using Put_single [OF k, of "[]" "- 1"] unfolding m by simp
  show ?thesis using 1 2 3 by simp
qed

theorem Put_overwrite_witness:
  "Put fresh [0x78] [0x76] = ((1, None), single [0x78] [0x76] 1) \<and>
   Put (single [0x78] [0x76] 1) [0x78] [0x77] = ((2, None), single [0x78] [0x77] 2) \<and>
   (1 :: uint64) \<noteq> - 1 \<and> (1 :: uint64) < 2 \<and>
   GetSeq (single [0x78] [0x77] 2) 1 = None \<and> GetSeq (single [0x78] [0x77] 2) 2 = Some [0x78] \<and>
   Get (single [0x78] [0x77] 2) [0x78] = Some (newValue 2 [0x77]) \<and>
   Value_Data (newValue 2 [0x77]) = Inr [0x77] \<and>
   counter fresh = 0 \<and> counter (single [0x78] [0x76] 1) = 1 \<and> counter (single [0x78] [0x77] 2) = 2"
proof -
  have k: "[0x78 :: byte] \<noteq> []" "length [0x78 :: byte] \<le> MaxKeySize"
    by (simp_all add: MaxKeySize_def)
  have v: "8 + length [0x76 :: byte] \<le> MaxValueSize" "8 + length [0x77 :: byte] \<le> MaxValueSize"
    by (simp_all add: MaxValueSize_def)
  have 1: "Put fresh [0x78] [0x76] = ((1, None), single [0x78] [0x76] 1)"
    by (rule Put_fresh [OF k v(1)])
  have 2: "Put (single [0x78] [0x76] 1) [0x78] [0x77] = ((2, None), single [0x78] [0x77] 2)"
    using Put_single [OF k v(2), of "[0x76]" 1] by simp
  show ?thesis using Put_overwrite [OF 1 2] 1 2
    by (simp add: counter_def fresh_def bucket_or_new_def new_bucket_def)
qed

section \<open>Delete\<close>

lemma Delete_removes:
  assumes "dataB loc = Some bd" and "bGet bd k = Some v" and "8 \<le> length v"
    and "seqB loc = Some bs" and "writable loc"
  shows "Delete loc k = (None, loc\<lparr>seqB := Some (bs\<lparr>pairs := remove_key (take 8 v) (pairs bs)\<rparr>),
     dataB := Some (bd\<lparr>pairs := remove_key k (pairs bd)\<rparr>)\<rparr>)"
  using assms
  by (simp add: Delete_def Bucket_def setBucket_def Value_IsValid_def Value_seqBytes_def
      bDelete_def)

lemma bGet_remove_key:
  "bGet (b\<lparr>pairs := remove_key k (pairs b)\<rparr>) k' = (if k' = k then None else bGet b k')"
  by (simp add: bGet_def map_of_remove_key)

text \<open>
  C4. \<open>Delete loc k\<close> fails with \<open>ErrInvalidBucket\<close> when the data bucket does not exist;
  succeeds and leaves the location as it is when the key is absent; fails with
  \<open>ErrInvalidValue\<close> when the stored value is shorter than 8 bytes; fails with
  \<open>ErrInvalidBucket\<close> when the seq bucket does not exist; otherwise, in the read-write
  transaction that a deletion needs, it succeeds, and afterwards \<open>Get k\<close> and \<open>GetSeq\<close>
  of the stored sequence number are both absent, while every other key and every
  other sequence number reads as before.
\<close>

theorem Delete_cases:
  "(dataB loc = None \<longrightarrow> Delete loc k = (Some ErrInvalidBucket, loc)) \<and>
   (\<forall>bd. dataB loc = Some bd \<and> bGet bd k = None \<longrightarrow> Delete loc k = (None, loc)) \<and>
   (\<forall>bd v. dataB loc = Some bd \<and> bGet bd k = Some v \<and> length v < 8 \<longrightarrow>
      Delete loc k = (Some ErrInvalidValue, loc)) \<and>
   (\<forall>bd v. dataB loc = Some bd \<and> bGet bd k = Some v \<and> 8 \<le> length v \<and> seqB loc = None \<longrightarrow>
      Delete loc k = (Some ErrInvalidBucket, loc)) \<and>
   (\<forall>bd v bs s. dataB loc = Some bd \<and> bGet bd k = Some v \<and> 8 \<le> length v \<and>
      seqB loc = Some bs \<and> writable loc \<and> Value_Seq v = Inr s \<longrightarrow>
      (\<exists>loc'. Delete loc k = (None, loc') \<and> Get loc' k = None \<and> GetSeq loc' s = None \<and>
         (\<forall>k'. k' \<noteq> k \<longrightarrow> Get loc' k' = Get loc k') \<and>
         (\<forall>s'. s' \<noteq> s \<longrightarrow> GetSeq loc' s' = GetSeq loc s')))"
proof (intro conjI allI impI)
  show "Delete loc k = (Some ErrInvalidBucket, loc)" if "dataB loc = None"
    using that by (simp add: Delete_def Bucket_def)
next
  fix bd
  assume "dataB loc = Some bd \<and> bGet bd k = None"
  then show "Delete loc k = (None, loc)" by (simp add: Delete_def Bucket_def)
next
  fix bd v
  assume "dataB loc = Some bd \<and> bGet bd k = Some v \<and> length v < 8"
  then show "Delete loc k = (Some ErrInvalidValue, loc)"
    by (simp add: Delete_def Bucket_def Value_IsValid_def)
next
  fix bd v
  assume "dataB loc = Some bd \<and> bGet bd k = Some v \<and> 8 \<le> length v \<and> seqB loc = None"
  then show "Delete loc k = (Some ErrInvalidBucket, loc)"
    by (simp add: Delete_def Bucket_def Value_IsValid_def)
next
  fix bd v bs s
  assume a: "dataB loc = Some bd \<and> bGet bd k = Some v \<and> 8 \<le> length v \<and>
      seqB loc = Some bs \<and> writable loc \<and> Value_Seq v = Inr s"
  from a Delete_removes [of loc bd k v bs] have
    r: "Delete loc k = (None, loc\<lparr>seqB := Some (bs\<lparr>pairs := remove_key (take 8 v) (pairs bs)\<rparr>),
     dataB := Some (bd\<lparr>pairs := remove_key k (pairs bd)\<rparr>)\<rparr>)"
    by blast
  from a have u: "Uint64 (take 8 v) = Inr s" by (auto simp: Value_Seq_def split: if_splits)
  from a have "length (take 8 v) = 8" by simp
  from PutUint64_Uint64 [OF this u] have p: "PutUint64 s = take 8 v" .
  have q: "PutUint64 s' \<noteq> take 8 v" if "s' \<noteq> s" for s'
    using that p by (metis PutUint64_inj)
  show "\<exists>loc'. Delete loc k = (None, loc') \<and> Get loc' k = None \<and> GetSeq loc' s = None \<and>
         (\<forall>k'. k' \<noteq> k \<longrightarrow> Get loc' k' = Get loc k') \<and>
         (\<forall>s'. s' \<noteq> s \<longrightarrow> GetSeq loc' s' = GetSeq loc s')"
    using r a p q by (simp add: Get_eq GetSeq_eq bGet_remove_key)
qed

theorem Delete_cases_witness:
  "dataB fresh = None \<and> Delete fresh [0x78] = (Some ErrInvalidBucket, fresh) \<and>
   Get (single [0x78] [0x76] 1) [0x79] = None \<and>
   Delete (single [0x78] [0x76] 1) [0x79] = (None, single [0x78] [0x76] 1) \<and>
   Get short_value [0x78] = Some [1, 2, 3] \<and>
   Delete short_value [0x78] = (Some ErrInvalidValue, short_value) \<and>
   Get no_seq [0x78] = Some (newValue 1 [0x76]) \<and> seqB no_seq = None \<and>
   Delete no_seq [0x78] = (Some ErrInvalidBucket, no_seq) \<and>
   Get (single [0x78] [0x76] 1) [0x78] = Some (newValue 1 [0x76]) \<and>
   GetSeq (single [0x78] [0x76] 1) 1 = Some [0x78] \<and>
   Delete (single [0x78] [0x76] 1) [0x78] =
     (None, \<lparr>dataB = Some \<lparr>pairs = [], sequence = 0\<rparr>,
             seqB = Some \<lparr>pairs = [], sequence = 1\<rparr>, writable = True\<rparr>) \<and>
   Get \<lparr>dataB = Some \<lparr>pairs = [], sequence = 0\<rparr>,
        seqB = Some \<lparr>pairs = [], sequence = 1\<rparr>, writable = True\<rparr> [0x78] = None \<and>
   GetSeq \<lparr>dataB = Some \<lparr>pairs = [], sequence = 0\<rparr>,
        seqB = Some \<lparr>pairs = [], sequence = 1\<rparr>, writable = True\<rparr> 1 = None"
proof -
  have 1: "Delete fresh [0x78] = (Some ErrInvalidBucket, fresh)"
    using Delete_cases [of fresh "[0x78]"] by (simp add: fresh_def)
  have 2: "Delete (single [0x78] [0x76] 1) [0x79] = (None, single [0x78] [0x76] 1)"
    using Delete_cases [of "single [0x78] [0x76] 1" "[0x79]"] by (simp add: single_def bGet_def)
  have 3: "Delete short_value [0x78] = (Some ErrInvalidValue, short_value)"
    using Delete_cases [of short_value "[0x78]"] by (simp add: short_value_def bGet_def)
  have 4: "Delete no_seq [0x78] = (Some ErrInvalidBucket, no_seq)"
    using Delete_cases [of no_seq "[0x78]"] by (simp add: no_seq_def bGet_def length_newValue)
  have 5: "Delete (single [0x78] [0x76] 1) [0x78] =
     (None, \<lparr>dataB = Some \<lparr>pairs = [], sequence = 0\<rparr>,
             seqB = Some \<lparr>pairs = [], sequence = 1\<rparr>, writable = True\<rparr>)"
    by (simp add: Delete_removes [of _ "\<lparr>pairs = [([0x78], newValue 1 [0x76])], sequence = 0\<rparr>" _ "newValue 1 [0x76]"
          "\<lparr>pairs = [(PutUint64 1, [0x78])], sequence = 1\<rparr>"]
        single_def bGet_def length_newValue take8_newValue remove_key_def)
  have 6: "\<exists>loc'. Delete (single [0x78] [0x76] 1) [0x78] = (None, loc') \<and>
      Get loc' [0x78] = None \<and> GetSeq loc' 1 = None"
    using Delete_cases [of "single [0x78] [0x76] 1" "[0x78]"]
    by (simp add: single_def bGet_def length_newValue Seq_newValue) blast
  have 7: "Get \<lparr>dataB = Some \<lparr>pairs = [], sequence = 0\<rparr>,
        seqB = Some \<lparr>pairs = [], sequence = 1\<rparr>, writable = True\<rparr> [0x78] = None \<and>
   GetSeq \<lparr>dataB = Some \<lparr>pairs = [], sequence = 0\<rparr>,
        seqB = Some \<lparr>pairs = [], sequence = 1\<rparr>, writable = True\<rparr> 1 = None"
    using 6 unfolding 5 by simp
  show ?thesis
    using 1 2 3 4 5 7
    by (simp add: Get_eq GetSeq_eq fresh_def single_def short_value_def no_seq_def bGet_def)
qed

section \<open>The cursor: positioning and errors\<close>

lemma sync_result:
  "sync c r =
     (case r of
        None \<Rightarrow> (False, c)
      | Some (sk, k) \<Rightarrow>
          if length sk < 8 then (False, c\<lparr>c_err := Some ErrInvalidKey\<rparr>)
          else (case Uint64 (take 8 sk) of
                  Inl e \<Rightarrow> (False, c)
                | Inr s \<Rightarrow> (True, c\<lparr>c_seq := s, c_key := k\<rparr>)))"
  by (auto simp: sync_def Value_IsValid_def Value_Seq_def split: option.splits)

lemma Uint64_take8: "8 \<le> length sk \<Longrightarrow> \<exists>s. Uint64 (take 8 sk) = Inr s"
  by (simp add: Uint64_def)

lemma call_position:
  "call loc c m =
     (case cs c of
        None \<Rightarrow> (False, c)
      | Some cur \<Rightarrow>
          (case seqB loc of
             None \<Rightarrow> (False, c)
           | Some bs \<Rightarrow>
               sync (c\<lparr>cs := Some (moved loc c m)\<rparr>) (landed loc c m)))"
  by (simp add: call_def landed_def moved_def Cursor_First_def Cursor_Last_def Cursor_Next_def
      Cursor_Prev_def Cursor_Seek_def position_def seqBytes_newValue Bucket_def
      split: positioning.splits option.splits prod.splits)

lemma landed_None: "cs c = None \<or> seqB loc = None \<Longrightarrow> landed loc c m = None"
  by (auto simp: landed_def split: option.splits)

lemma call_err:
  assumes "call loc c m = (ok, c')"
  shows "Cursor_Err c' =
           (case landed loc c m of
              None \<Rightarrow> Cursor_Err c
            | Some (sk, k) \<Rightarrow> if length sk < 8 then Some ErrInvalidKey else Cursor_Err c)"
    and "ok = (case landed loc c m of None \<Rightarrow> False | Some (sk, k) \<Rightarrow> 8 \<le> length sk)"
  using assms Uint64_take8
  by (fastforce simp: call_position sync_result Cursor_Err_def landed_None
      split: option.splits prod.splits if_splits sum.splits)+

lemmas cursor_eval = Bucket_Cursor_def Cursor_First_def Cursor_Last_def Cursor_Next_def
  Cursor_Prev_def Cursor_Seek_def position_def sync_def cFirst_def cLast_def cNext_def cPrev_def
  cSeek_def keyValue_def Value_IsValid_def Value_Seq_def Value_seqBytes_def Uint64_def PutUint64_def newValue_def
  Cursor_Err_def Bucket_def Let_def

lemma corrupt_First:
  "Cursor_First corrupt (Bucket_Cursor corrupt) =
     (True, (Bucket_Cursor corrupt)\<lparr>cs := Some (Some 0), c_seq := 1, c_key := [0x78]\<rparr>)"
  by (simp add: cursor_eval corrupt_def)

lemma corrupt_Next:
  "Cursor_Next corrupt ((Bucket_Cursor corrupt)\<lparr>cs := Some (Some 0), c_seq := 1, c_key := [0x78]\<rparr>) =
     (False, (Bucket_Cursor corrupt)\<lparr>cs := Some (Some (Suc 0)), c_seq := 1, c_key := [0x78],
        c_err := Some ErrInvalidKey\<rparr>)"
  by (simp add: cursor_eval corrupt_def)

lemma corrupt_First_again:
  "Cursor_First corrupt ((Bucket_Cursor corrupt)\<lparr>cs := Some (Some (Suc 0)), c_seq := 1, c_key := [0x78],
        c_err := Some ErrInvalidKey\<rparr>) =
     (True, (Bucket_Cursor corrupt)\<lparr>cs := Some (Some 0), c_seq := 1, c_key := [0x78],
        c_err := Some ErrInvalidKey\<rparr>)"
  by (simp add: cursor_eval corrupt_def)

text \<open>
  C8, as amended. \<open>Err()\<close> after a positioning call is the decode error of that call if
  it met a seq key shorter than 8 bytes, and otherwise what \<open>Err()\<close> was before the
  call: the field is set by \<open>sync\<close> and never cleared. So on a cursor that has met no
  decode error so far (as a cursor fresh from \<open>Bucket.Cursor\<close>), \<open>Err()\<close> is no error after
  a call that succeeds and after a call that returns false on plain exhaustion, and it
  is \<open>ErrInvalidKey\<close> after a call that returns false on a short key; once set, the
  error stays through every later call.
\<close>

theorem Err_is_sticky:
  assumes "call loc c m = (ok, c')"
  shows "Cursor_Err c' =
           (case landed loc c m of
              None \<Rightarrow> Cursor_Err c
            | Some (sk, k) \<Rightarrow> if length sk < 8 then Some ErrInvalidKey else Cursor_Err c) \<and>
         ok = (case landed loc c m of None \<Rightarrow> False | Some (sk, k) \<Rightarrow> 8 \<le> length sk) \<and>
         (Cursor_Err c = None \<and> ok \<longrightarrow> Cursor_Err c' = None) \<and>
         (Cursor_Err c = None \<and> landed loc c m = None \<longrightarrow> \<not> ok \<and> Cursor_Err c' = None) \<and>
         (Cursor_Err c \<noteq> None \<longrightarrow> Cursor_Err c' \<noteq> None) \<and>
         Cursor_Err (Bucket_Cursor loc) = None"
  using call_err [OF assms]
  by (auto simp: Cursor_Err_def Bucket_Cursor_def split: option.splits prod.splits if_splits)

theorem Err_is_sticky_witness:
  "call corrupt (Bucket_Cursor corrupt) First = (True, 
     (Bucket_Cursor corrupt)\<lparr>cs := Some (Some 0), c_seq := 1, c_key := [0x78]\<rparr>) \<and>
   Cursor_Err (Bucket_Cursor corrupt) = None \<and>
   Cursor_Err ((Bucket_Cursor corrupt)\<lparr>cs := Some (Some 0), c_seq := 1, c_key := [0x78]\<rparr>) = None \<and>
   call corrupt ((Bucket_Cursor corrupt)\<lparr>cs := Some (Some 0), c_seq := 1, c_key := [0x78]\<rparr>) Next =
     (False, (Bucket_Cursor corrupt)\<lparr>cs := Some (Some (Suc 0)), c_seq := 1, c_key := [0x78],
        c_err := Some ErrInvalidKey\<rparr>) \<and>
   landed corrupt ((Bucket_Cursor corrupt)\<lparr>cs := Some (Some 0), c_seq := 1, c_key := [0x78]\<rparr>) Next
     = Some ([1], [0x79]) \<and>
   Cursor_Err ((Bucket_Cursor corrupt)\<lparr>cs := Some (Some (Suc 0)), c_seq := 1, c_key := [0x78],
        c_err := Some ErrInvalidKey\<rparr>) = Some ErrInvalidKey \<and>
   call corrupt ((Bucket_Cursor corrupt)\<lparr>cs := Some (Some (Suc 0)), c_seq := 1, c_key := [0x78],
        c_err := Some ErrInvalidKey\<rparr>) First =
     (True, (Bucket_Cursor corrupt)\<lparr>cs := Some (Some 0), c_seq := 1, c_key := [0x78],
        c_err := Some ErrInvalidKey\<rparr>) \<and>
   Cursor_Err ((Bucket_Cursor corrupt)\<lparr>cs := Some (Some 0), c_seq := 1, c_key := [0x78],
        c_err := Some ErrInvalidKey\<rparr>) \<noteq> None \<and>
   landed corrupt ((Bucket_Cursor corrupt)\<lparr>cs := Some (Some (Suc 0)), c_seq := 1, c_key := [0x78],
        c_err := Some ErrInvalidKey\<rparr>) Next = None \<and>
   landed (single [0x78] [] 1) (Bucket_Cursor (single [0x78] [] 1)) (Seek 7) = None \<and>
   call (single [0x78] [] 1) (Bucket_Cursor (single [0x78] [] 1)) (Seek 7) =
     (False, (Bucket_Cursor (single [0x78] [] 1))\<lparr>cs := Some (Some (Suc 0))\<rparr>) \<and>
   Cursor_Err ((Bucket_Cursor (single [0x78] [] 1))\<lparr>cs := Some (Some (Suc 0))\<rparr>) = None"
proof -
  let ?c0 = "Bucket_Cursor corrupt"
  let ?c1 = "?c0\<lparr>cs := Some (Some 0), c_seq := 1, c_key := [0x78]\<rparr>"
  let ?c2 = "?c0\<lparr>cs := Some (Some (Suc 0)), c_seq := 1, c_key := [0x78], c_err := Some ErrInvalidKey\<rparr>"
  let ?c3 = "?c0\<lparr>cs := Some (Some 0), c_seq := 1, c_key := [0x78], c_err := Some ErrInvalidKey\<rparr>"
  have 1: "call corrupt ?c0 First = (True, ?c1)" by (simp add: call_def corrupt_First)
  have 2: "call corrupt ?c1 Next = (False, ?c2)" by (simp add: call_def corrupt_Next)
  have 3: "call corrupt ?c2 First = (True, ?c3)" by (simp add: call_def corrupt_First_again)
  have 4: "call (single [0x78] [] 1) (Bucket_Cursor (single [0x78] [] 1)) (Seek 7) =
     (False, (Bucket_Cursor (single [0x78] [] 1))\<lparr>cs := Some (Some (Suc 0))\<rparr>)"
    by (simp add: call_def cursor_eval single_def)
  have l2: "landed corrupt ?c1 Next = Some ([1], [0x79])"
    by (simp add: landed_def cursor_eval corrupt_def)
  have l3: "landed corrupt ?c2 Next = None"
    by (simp add: landed_def cursor_eval corrupt_def)
  have l4: "landed (single [0x78] [] 1) (Bucket_Cursor (single [0x78] [] 1)) (Seek 7) = None"
    by (simp add: landed_def cursor_eval single_def)
  show ?thesis
    using Err_is_sticky [OF 1] Err_is_sticky [OF 2] Err_is_sticky [OF 3] Err_is_sticky [OF 4]
      1 2 3 4 l2 l3 l4
    by (simp add: Cursor_Err_def Bucket_Cursor_def)
qed

text \<open>
  C8 as stated fails on a cursor that has met a decode error before: on the bucket
  \<open>corrupt\<close>, \<open>First\<close> succeeds, \<open>Next\<close> meets the short key and returns false, \<open>First\<close>
  succeeds again, and \<open>Err()\<close> still reports \<open>ErrInvalidKey\<close> although the most recent
  call succeeded.
\<close>

theorem Err_outlives_success:
  "Cursor_Err (Bucket_Cursor corrupt) = None \<and>
   fst (Cursor_First corrupt (Bucket_Cursor corrupt)) = True \<and>
   fst (Cursor_Next corrupt (snd (Cursor_First corrupt (Bucket_Cursor corrupt)))) = False \<and>
   fst (Cursor_First corrupt (snd (Cursor_Next corrupt (snd (Cursor_First corrupt
     (Bucket_Cursor corrupt)))))) = True \<and>
   Cursor_Err (snd (Cursor_First corrupt (snd (Cursor_Next corrupt (snd (Cursor_First corrupt
     (Bucket_Cursor corrupt))))))) = Some ErrInvalidKey"
  by (simp add: corrupt_First corrupt_Next corrupt_First_again)
    (simp add: Cursor_Err_def Bucket_Cursor_def)


section \<open>The place of a store cursor\<close>

lemma index_of_first:
  "(if length (takeWhile Q ps) < length ps then Some (ps ! length (takeWhile Q ps)) else None) =
     find (\<lambda>p. \<not> Q p) ps"
  by (induction ps) auto

lemma cSeek_eq:
  "cSeek b k =
     (Some (length (takeWhile (\<lambda>p. fst p < k) (pairs b))), find (\<lambda>p. k \<le> fst p) (pairs b))"
  using index_of_first [of "\<lambda>p. fst p < k" "pairs b"]
  by (simp add: cSeek_def keyValue_def not_less Let_def)

lemma cSeek_keyValue: "cSeek b k = (cur, r) \<Longrightarrow> \<exists>i. cur = Some i \<and> keyValue b i = r"
  by (auto simp: cSeek_def Let_def)

lemma find_present:
  "sorted_wrt (<) (map fst ps) \<Longrightarrow> map_of ps k = Some v \<Longrightarrow>
     find (\<lambda>p. k \<le> fst p) ps = Some (k, v)"
  for ps :: "('a::linorder \<times> 'b) list"
proof (induction ps)
  case Nil
  then show ?case by simp
next
  case (Cons a ps)
  show ?case
  proof (cases "fst a = k")
    case True
    with Cons.prems show ?thesis by (cases a) simp
  next
    case False
    with Cons.prems have m: "map_of ps k = Some v" by (cases a) (simp split: if_splits)
    then have "k \<in> fst ` set ps" by (metis domI dom_map_of_conv_image_fst)
    with Cons.prems(1) have "fst a < k" by auto
    then have "\<not> k \<le> fst a" by simp
    with Cons m show ?thesis by simp
  qed
qed

lemma keyValue_mem: "keyValue b i = Some kv \<Longrightarrow> kv \<in> set (pairs b)"
  by (auto simp: keyValue_def split: if_splits)

lemma mem_sorted_bGet:
  "sorted_bucket b \<Longrightarrow> (k, v) \<in> set (pairs b) \<Longrightarrow> bGet b k = Some v"
  by (simp add: sorted_bucket_def bGet_def strict_sorted_iff)

lemma keyValue_bGet:
  assumes "sorted_bucket b" and "keyValue b i = Some (k, v)"
  shows "bGet b k = Some v"
  using mem_sorted_bGet [OF assms(1) keyValue_mem [OF assms(2)]] .

lemma index_in_sorted:
  fixes ps :: "('a::linorder \<times> 'b) list"
  shows "sorted_wrt (<) (map fst ps) \<Longrightarrow> i < length ps \<Longrightarrow>
     length (takeWhile (\<lambda>p. fst p < fst (ps ! i)) ps) = i"
proof (induction ps arbitrary: i)
  case Nil
  then show ?case by simp
next
  case (Cons a ps)
  show ?case
  proof (cases i)
    case 0
    then show ?thesis by simp
  next
    case (Suc j)
    with Cons.prems have j: "j < length ps" by simp
    then have "ps ! j \<in> set ps" by simp
    with Cons.prems(1) have "fst a < fst (ps ! j)" by auto
    with Cons.IH [OF _ j] Cons.prems(1) Suc show ?thesis by simp
  qed
qed

lemma cSeek_at:
  assumes "sorted_bucket b" and "keyValue b i = Some (k, v)"
  shows "cSeek b k = (Some i, Some (k, v))"
proof -
  from assms(2) have i: "i < length (pairs b)" and p: "pairs b ! i = (k, v)"
    by (auto simp: keyValue_def split: if_splits)
  from index_in_sorted [OF _ i] assms(1) p
  have "length (takeWhile (\<lambda>p. fst p < k) (pairs b)) = i" by (simp add: sorted_bucket_def)
  with assms(2) show ?thesis by (simp add: cSeek_def Let_def)
qed

lemma cSeek_present:
  assumes "sorted_bucket b" and "bGet b k = Some v"
  shows "\<exists>i. cSeek b k = (Some i, Some (k, v)) \<and> keyValue b i = Some (k, v)"
proof -
  from assms have "find (\<lambda>p. k \<le> fst p) (pairs b) = Some (k, v)"
    by (simp add: sorted_bucket_def bGet_def find_present)
  then have "cSeek b k = (Some (length (takeWhile (\<lambda>p. fst p < k) (pairs b))), Some (k, v))"
    by (simp add: cSeek_eq)
  with cSeek_keyValue [OF this] show ?thesis by auto
qed

lemma cSeek_lands:
  assumes "sorted_bucket b" and "snd (cSeek b k) = Some (k', v')"
  shows "bGet b k' = Some v'"
proof -
  obtain cur where "cSeek b k = (cur, Some (k', v'))" using assms(2) by (cases "cSeek b k") auto
  from cSeek_keyValue [OF this] keyValue_bGet [OF assms(1)] show ?thesis by auto
qed

lemma cSeek_absent:
  assumes "bGet b k = None"
  shows "seek_key (snd (cSeek b k)) = k \<longrightarrow> k = [] \<and> snd (cSeek b k) = None"
proof (cases "snd (cSeek b k)")
  case None
  then show ?thesis by (auto simp: seek_key_def)
next
  case (Some kv)
  then obtain cur where "cSeek b k = (cur, Some kv)" by (cases "cSeek b k") auto
  from cSeek_keyValue [OF this] have "kv \<in> set (pairs b)" by (auto dest: keyValue_mem)
  then have "fst kv \<in> fst ` set (pairs b)" by simp
  with assms have "fst kv \<noteq> k" by (auto simp: bGet_def map_of_eq_None_iff)
  with Some show ?thesis by (simp add: seek_key_def)
qed

lemma prim_keyValue:
  "snd (cFirst b) = Some kv \<Longrightarrow> \<exists>i. fst (cFirst b) = Some i \<and> keyValue b i = Some kv"
  "snd (cLast b) = Some kv \<Longrightarrow> \<exists>i. fst (cLast b) = Some i \<and> keyValue b i = Some kv"
  "snd (cSeek b k) = Some kv \<Longrightarrow> \<exists>i. fst (cSeek b k) = Some i \<and> keyValue b i = Some kv"
  "snd (cNext b cur) = Some kv \<Longrightarrow> \<exists>i. fst (cNext b cur) = Some i \<and> keyValue b i = Some kv"
  "snd (cPrev b cur) = Some kv \<Longrightarrow> \<exists>i. fst (cPrev b cur) = Some i \<and> keyValue b i = Some kv"
  by (auto simp: cFirst_def cLast_def cSeek_def cNext_def cPrev_def Let_def
      split: option.splits if_splits)

lemma landed_keyValue:
  assumes "landed loc c m = Some kv"
  shows "\<exists>bs i. seqB loc = Some bs \<and> moved loc c m = Some i \<and> keyValue bs i = Some kv"
  using assms prim_keyValue
  by (auto simp: landed_def moved_def split: option.splits positioning.splits)
section \<open>The cached pointer against the always-miss pointer\<close>

lemma move_miss_eq:
  "move_miss loc q k =
     (case p_c q of
        None \<Rightarrow> (False, q)
      | Some cur \<Rightarrow>
          (case dataB loc of
             None \<Rightarrow> (False, q)
           | Some bd \<Rightarrow>
               (seek_key (snd (cSeek bd k)) = k,
                \<lparr>p_c = Some (fst (cSeek bd k)), p_key = seek_key (snd (cSeek bd k)),
                 p_val = seek_val (snd (cSeek bd k))\<rparr>)))"
  by (simp add: move_miss_def Bucket_def split: option.splits prod.splits)

lemma move_eq:
  "move loc p k =
     (case p_c p of
        None \<Rightarrow> (False, p)
      | Some cur \<Rightarrow>
          if p_key p = k then (True, p)
          else (case dataB loc of
             None \<Rightarrow> (False, p)
           | Some bd \<Rightarrow>
               (seek_key (snd (cSeek bd k)) = k,
                \<lparr>p_c = Some (fst (cSeek bd k)), p_key = seek_key (snd (cSeek bd k)),
                 p_val = seek_val (snd (cSeek bd k))\<rparr>)))"
  by (simp add: move_def Bucket_def split: option.splits prod.splits)

lemma coherent_hit:
  assumes "sorted_opt (dataB loc)" and "coherent loc p" and "p_c p = Some cur" and "p_key p \<noteq> []"
  shows "\<exists>bd. dataB loc = Some bd \<and> cSeek bd (p_key p) = (cur, Some (p_key p, p_val p))"
  using assms
  by (auto simp: coherent_def sorted_opt_def cSeek_at split: option.splits)

lemma coherent_after_seek:
  assumes "dataB loc = Some bd"
  shows "coherent loc \<lparr>p_c = Some (fst (cSeek bd k)), p_key = seek_key (snd (cSeek bd k)),
                 p_val = seek_val (snd (cSeek bd k))\<rparr>"
proof (cases "snd (cSeek bd k)")
  case None
  with assms show ?thesis by (simp add: coherent_def seek_key_def)
next
  case (Some kv)
  with prim_keyValue(3) [OF this] assms show ?thesis
    by (auto simp: coherent_def seek_key_def seek_val_def)
qed

lemma move_simulation:
  assumes srt: "sorted_opt (dataB loc)" and coh: "coherent loc p"
    and nil: "(p_c q = None) = (p_c p = None)" and k: "k \<noteq> []"
  shows "fst (move loc p k) = fst (move_miss loc q k) \<and>
     p_val (snd (move loc p k)) = (if p_c p = None then p_val p else p_val (snd (move_miss loc q k))) \<and>
     p_c (snd (move loc p k)) = p_c (snd (move_miss loc q k)) \<and>
     coherent loc (snd (move loc p k)) \<and> coherent loc (snd (move_miss loc q k))"
proof (cases "p_c p")
  case None
  with nil have "p_c q = None" by simp
  with None coh show ?thesis by (simp add: move_eq move_miss_eq coherent_def)
next
  case (Some cur)
  with nil obtain cur' where q: "p_c q = Some cur'" by auto
  from coh Some obtain bd where bd: "dataB loc = Some bd"
    by (auto simp: coherent_def split: option.splits)
  note after = coherent_after_seek [OF bd, of k]
  show ?thesis
  proof (cases "p_key p = k")
    case True
    with k coherent_hit [OF srt coh Some] bd have
      "cSeek bd k = (cur, Some (k, p_val p))" by auto
    with True Some q bd coh after show ?thesis
      by (simp add: move_eq move_miss_eq seek_key_def seek_val_def)
  next
    case False
    with Some q bd after show ?thesis by (simp add: move_eq move_miss_eq)
  qed
qed

lemma pointer_Get_simulation:
  assumes "sorted_opt (dataB loc)" and "coherent loc p"
    and "(p_c q = None) = (p_c p = None)" and "k \<noteq> []"
  shows "fst (pointer_Get loc p k) = fst (pointer_Get_miss loc q k) \<and>
     coherent loc (snd (pointer_Get loc p k)) \<and>
     ((p_c (snd (pointer_Get_miss loc q k)) = None) = (p_c (snd (pointer_Get loc p k)) = None))"
proof -
  note m = move_simulation [OF assms]
  have f: "\<not> fst (move loc p k)" if "p_c p = None" using that by (simp add: move_eq)
  show ?thesis
    using m f
    by (auto simp: pointer_Get_def pointer_Get_miss_def split: prod.splits)
qed

lemma pointer_Delete_simulation:
  assumes "sorted_opt (dataB loc)" and "coherent loc p"
    and "(p_c q = None) = (p_c p = None)" and "k \<noteq> []"
  shows "fst (pointer_Delete loc p k) = fst (pointer_Delete_miss loc q k) \<and>
     snd (snd (pointer_Delete loc p k)) = snd (snd (pointer_Delete_miss loc q k))"
proof -
  note m = move_simulation [OF assms]
  show ?thesis
    using m
    by (auto simp: pointer_Delete_def pointer_Delete_miss_def split: prod.splits option.splits sum.splits)
qed

lemma resolve_all_simulation:
  assumes "sorted_opt (dataB loc)"
  shows "coherent loc p \<Longrightarrow> (p_c q = None) = (p_c p = None) \<Longrightarrow> [] \<notin> set ks \<Longrightarrow>
     fst (resolve_all loc p ks) = fst (resolve_all_miss loc q ks) \<and>
     coherent loc (snd (resolve_all loc p ks)) \<and>
     ((p_c (snd (resolve_all_miss loc q ks)) = None) = (p_c (snd (resolve_all loc p ks)) = None))"
proof (induction ks arbitrary: p q)
  case Nil
  then show ?case by simp
next
  case (Cons k ks)
  from Cons.prems have k: "k \<noteq> []" and ks: "[] \<notin> set ks" by auto
  note g = pointer_Get_simulation [OF assms Cons.prems(1,2) k]
  obtain r p' where p': "pointer_Get loc p k = (r, p')" by (cases "pointer_Get loc p k")
  obtain r' q' where q': "pointer_Get_miss loc q k = (r', q')" by (cases "pointer_Get_miss loc q k")
  from g p' q' have "r = r'" "coherent loc p'" "(p_c q' = None) = (p_c p' = None)" by simp_all
  with Cons.IH [OF this(2,3) ks] p' q' show ?case by (auto split: prod.splits)
qed

lemma coherent_fresh: "coherent loc (dp (Bucket_Cursor loc))"
  by (simp add: coherent_def Bucket_Cursor_def Bucket_def split: option.splits)

lemmas pointer_eval = pointer_Get_def pointer_Get_miss_def move_def move_miss_def
  pointer_Delete_def pointer_Delete_miss_def Cursor_Data_def Cursor_Data_miss_def
  Cursor_Delete_def Cursor_Delete_miss_def seek_key_def seek_val_def cDelete_def setBucket_def
  Value_Data_def remove_key_def

text \<open>
  For keys that are not empty the cache makes no difference. On a location whose data
  bucket is in key order and is not changed between the calls, start from the pointer of
  a fresh cursor and ask for any keys \<open>ks\<close>, none of them empty: the cached pointer and
  the always-miss pointer return the same (value, found) for every key. After these
  calls, for a cursor that stands on a non-empty key \<open>k\<close>, \<open>Get k\<close> returns the same
  (value, found), \<open>Cursor.Data\<close> returns the same payload or error, and \<open>Cursor.Delete\<close>
  returns the same error and leaves the same location, with the cache as without it.
\<close>

lemma cache_is_transparent:
  assumes "sorted_opt (dataB loc)" and "[] \<notin> set ks" and "k \<noteq> []"
  shows "fst (resolve_all loc (dp (Bucket_Cursor loc)) ks) =
           fst (resolve_all_miss loc (dp (Bucket_Cursor loc)) ks) \<and>
         fst (pointer_Get loc (snd (resolve_all loc (dp (Bucket_Cursor loc)) ks)) k) =
           fst (pointer_Get_miss loc (snd (resolve_all_miss loc (dp (Bucket_Cursor loc)) ks)) k) \<and>
         fst (Cursor_Data loc (c\<lparr>dp := snd (resolve_all loc (dp (Bucket_Cursor loc)) ks), c_key := k\<rparr>)) =
           fst (Cursor_Data_miss loc
             (c\<lparr>dp := snd (resolve_all_miss loc (dp (Bucket_Cursor loc)) ks), c_key := k\<rparr>)) \<and>
         fst (Cursor_Delete loc (c\<lparr>dp := snd (resolve_all loc (dp (Bucket_Cursor loc)) ks), c_key := k\<rparr>)) =
           fst (Cursor_Delete_miss loc
             (c\<lparr>dp := snd (resolve_all_miss loc (dp (Bucket_Cursor loc)) ks), c_key := k\<rparr>)) \<and>
         snd (snd (Cursor_Delete loc
             (c\<lparr>dp := snd (resolve_all loc (dp (Bucket_Cursor loc)) ks), c_key := k\<rparr>))) =
           snd (snd (Cursor_Delete_miss loc
             (c\<lparr>dp := snd (resolve_all_miss loc (dp (Bucket_Cursor loc)) ks), c_key := k\<rparr>)))"
proof -
  let ?fresh = "dp (Bucket_Cursor loc)"
  let ?p = "snd (resolve_all loc ?fresh ks)" and ?q = "snd (resolve_all_miss loc ?fresh ks)"
  from resolve_all_simulation [where p = ?fresh and q = ?fresh, OF assms(1) coherent_fresh refl assms(2)]
  have rs: "fst (resolve_all loc ?fresh ks) = fst (resolve_all_miss loc ?fresh ks)"
    and coh: "coherent loc ?p" and nil: "(p_c ?q = None) = (p_c ?p = None)"
    by simp_all
  note g = pointer_Get_simulation [OF assms(1) coh nil assms(3)]
  note d = pointer_Delete_simulation [OF assms(1) coh nil assms(3)]
  from g have gd: "fst (Cursor_Data loc (c\<lparr>dp := ?p, c_key := k\<rparr>)) =
           fst (Cursor_Data_miss loc (c\<lparr>dp := ?q, c_key := k\<rparr>))"
    by (auto simp: Cursor_Data_def Cursor_Data_miss_def split: prod.splits)
  obtain e p' l where pd: "pointer_Delete loc ?p k = (e, p', l)"
    by (cases "pointer_Delete loc ?p k") auto
  obtain e' q' l' where qd: "pointer_Delete_miss loc ?q k = (e', q', l')"
    by (cases "pointer_Delete_miss loc ?q k") auto
  from d pd qd have eq: "e' = e" "l' = l" by simp_all
  have dd: "fst (Cursor_Delete loc (c\<lparr>dp := ?p, c_key := k\<rparr>)) =
           fst (Cursor_Delete_miss loc (c\<lparr>dp := ?q, c_key := k\<rparr>)) \<and>
         snd (snd (Cursor_Delete loc (c\<lparr>dp := ?p, c_key := k\<rparr>))) =
           snd (snd (Cursor_Delete_miss loc (c\<lparr>dp := ?q, c_key := k\<rparr>)))"
    using pd qd eq
    by (simp add: Cursor_Delete_def Cursor_Delete_miss_def split: option.splits sum.splits)
  show ?thesis using rs g gd dd by simp
qed

text \<open>
  C9. The cached pointer is not a pure optimisation: it differs from the always-miss
  variant at the empty key. The cache of a fresh pointer holds the nil key, which
  \<open>bytes.Equal\<close> takes for the empty key, so \<open>move\<close> reports a hit with nothing cached,
  where its nil guard and its seek report not found. After \<open>Put("x", "v")\<close> on the empty
  bucket, \<open>Get\<close> of the empty key through the fresh pointer is \<open>(nil, found)\<close> and through
  the always-miss pointer \<open>(nil, not found)\<close>; \<open>Cursor.Data\<close> on the fresh cursor, whose key
  is nil, returns \<open>ErrInvalidValue\<close> with the cache and \<open>ErrInvalidKey\<close> without; and
  \<open>pointer.Delete\<close> goes on to \<open>Delete\<close> on the data cursor that was never positioned,
  where the always-miss pointer returns nil.
\<close>

theorem cache_hits_empty_key:
  "Put fresh [0x78] [0x76] = ((1, None), single [0x78] [0x76] 1) \<and>
   c_key (Bucket_Cursor (single [0x78] [0x76] 1)) = [] \<and>
   fst (move (single [0x78] [0x76] 1) (dp (Bucket_Cursor (single [0x78] [0x76] 1))) []) = True \<and>
   fst (move_miss (single [0x78] [0x76] 1) (dp (Bucket_Cursor (single [0x78] [0x76] 1))) [])
     = False \<and>
   fst (pointer_Get (single [0x78] [0x76] 1) (dp (Bucket_Cursor (single [0x78] [0x76] 1))) [])
     = ([], True) \<and>
   fst (pointer_Get_miss (single [0x78] [0x76] 1) (dp (Bucket_Cursor (single [0x78] [0x76] 1))) [])
     = ([], False) \<and>
   fst (Cursor_Data (single [0x78] [0x76] 1) (Bucket_Cursor (single [0x78] [0x76] 1)))
     = Inl ErrInvalidValue \<and>
   fst (Cursor_Data_miss (single [0x78] [0x76] 1) (Bucket_Cursor (single [0x78] [0x76] 1)))
     = Inl ErrInvalidKey \<and>
   fst (pointer_Delete (single [0x78] [0x76] 1) (dp (Bucket_Cursor (single [0x78] [0x76] 1))) [])
     = Some PanicIndexRange \<and>
   fst (pointer_Delete_miss (single [0x78] [0x76] 1) (dp (Bucket_Cursor (single [0x78] [0x76] 1))) [])
     = None"
proof -
  have "Put fresh [0x78] [0x76] = ((1, None), single [0x78] [0x76] 1)"
    by (rule Put_fresh) (simp_all add: MaxKeySize_def MaxValueSize_def)
  then show ?thesis by (simp add: pointer_eval cursor_eval single_def)
qed

section \<open>A cursor without its seq bucket\<close>


lemma pointer_Get_nil: "p_c p = None \<Longrightarrow> pointer_Get loc p k = (([], False), p)"
  by (simp add: pointer_Get_def move_def)





section \<open>The invariant is kept by Put and Delete\<close>










lemma mirrored_facts:
  assumes "mirrored loc"
  shows "bGet (bucket_or_new (dataB loc)) k = Some v \<Longrightarrow>
           k \<noteq> [] \<and> 8 \<le> length v \<and> bGet (bucket_or_new (seqB loc)) (take 8 v) = Some k"
    and "bGet (bucket_or_new (seqB loc)) sk = Some k \<Longrightarrow>
           length sk = 8 \<and> (\<exists>v. bGet (bucket_or_new (dataB loc)) k = Some v \<and> take 8 v = sk)"
    and "sorted_opt (dataB loc)" and "sorted_opt (seqB loc)"
  using assms
  by (auto simp: mirrored_def bucket_or_new_def new_bucket_def bGet_def sorted_opt_def
      split: option.splits)









section \<open>The cursor on mirrored indices\<close>

lemma landed_bGet:
  assumes "mirrored loc" and "landed loc c m = Some (sk, k)"
  shows "\<exists>bs i. seqB loc = Some bs \<and> moved loc c m = Some i \<and> keyValue bs i = Some (sk, k) \<and>
     bGet bs sk = Some k \<and> length sk = 8"
proof -
  from landed_keyValue [OF assms(2)] obtain bs i where
    b: "seqB loc = Some bs" "moved loc c m = Some i" "keyValue bs i = Some (sk, k)" by blast
  with assms(1) have "sorted_bucket bs" by (auto simp: mirrored_def split: option.splits)
  from keyValue_bGet [OF this b(3)] have g: "bGet bs sk = Some k" .
  with assms(1) b(1) have "length sk = 8" by (auto simp: mirrored_def split: option.splits)
  with b g show ?thesis by simp
qed

lemma call_result:
  assumes "mirrored loc"
  shows "call loc c m =
     (case landed loc c m of
        None \<Rightarrow>
          (False, if cs c = None \<or> seqB loc = None then c else c\<lparr>cs := Some (moved loc c m)\<rparr>)
      | Some (sk, k) \<Rightarrow>
          (case Uint64 sk of
             Inl e \<Rightarrow> (False, c)
           | Inr s \<Rightarrow> (True, c\<lparr>cs := Some (moved loc c m), c_seq := s, c_key := k\<rparr>)))"
proof (cases "landed loc c m")
  case None
  then show ?thesis
    by (auto simp: call_position sync_result split: option.splits)
next
  case (Some r)
  obtain sk k where r: "r = (sk, k)" by (cases r)
  from landed_bGet [OF assms Some [unfolded r]] have l: "length sk = 8" by auto
  then obtain s where s: "Uint64 sk = Inr s" using Uint64_take8 [of sk] by auto
  from Some r obtain cur bs where "cs c = Some cur" "seqB loc = Some bs"
    by (auto simp: landed_def split: option.splits)
  with Some r l s show ?thesis
    by (simp add: call_position sync_result)
qed


lemma mirrored_no_blank:
  "mirrored loc \<Longrightarrow> dataB loc = Some bd \<Longrightarrow> bGet bd [] = None"
  by (cases "bGet bd []") (auto simp: mirrored_def split: option.splits)

lemma cursor_ok_fresh: "mirrored loc \<Longrightarrow> cursor_ok loc (Bucket_Cursor loc)"
  using mirrored_no_blank [of loc]
  by (auto simp: cursor_ok_def pointer_ok_def Bucket_Cursor_def Bucket_def split: option.splits)



lemma p_c_move: "(p_c (snd (move loc p k)) = None) = (p_c p = None)"
  by (simp add: move_eq split: option.splits)





lemma move_finds:
  assumes m: "mirrored loc" and p: "pointer_ok loc p"
    and bd: "dataB loc = Some bd" and g: "bGet bd k = Some v"
  shows "fst (move loc p k) \<and>
     (\<exists>i v'. p_c (snd (move loc p k)) = Some (Some i) \<and> keyValue bd i = Some (k, v')) \<and>
     p_key (snd (move loc p k)) = k"
proof -
  from p bd obtain cur where cur: "p_c p = Some cur"
    by (auto simp: pointer_ok_def split: option.splits)
  show ?thesis
  proof (cases "p_key p = k")
    case True
    with p bd g cur show ?thesis
      by (auto simp: pointer_ok_def move_eq split: option.splits)
  next
    case False
    from mirrored_facts(3) [OF m] bd have "sorted_bucket bd" by (simp add: sorted_opt_def)
    from cSeek_present [OF this g] obtain i where
      "cSeek bd k = (Some i, Some (k, v))" "keyValue bd i = Some (k, v)" by blast
    with False cur bd show ?thesis by (simp add: move_eq seek_key_def)
  qed
qed

lemma pointer_Delete_finds:
  assumes m: "mirrored loc" and p: "pointer_ok loc p"
    and bd: "dataB loc = Some bd" and g: "bGet bd k = Some v"
  shows "pointer_Delete loc p k =
     (if writable loc then None else Some ErrTxNotWritable, snd (move loc p k),
      if writable loc then loc\<lparr>dataB := Some (bd\<lparr>pairs := remove_key k (pairs bd)\<rparr>)\<rparr> else loc)"
proof -
  obtain ok p' where x: "move loc p k = (ok, p')" by (cases "move loc p k")
  with move_finds [OF assms] obtain i v' where
    "ok" "p_c p' = Some (Some i)" "keyValue bd i = Some (k, v')" by auto
  with x bd show ?thesis
    by (simp add: pointer_Delete_def Bucket_def setBucket_def cDelete_def seek_key_def)
qed

lemma Cursor_Delete_at:
  assumes m: "mirrored loc" and ok: "cursor_ok loc c"
    and x: "cs c = Some (Some i)" "seqB loc = Some bs" "keyValue bs i = Some (sk, c_key c)"
  shows "\<exists>bd. dataB loc = Some bd \<and> bGet bs sk = Some (c_key c) \<and>
     Cursor_Delete loc c =
       (if writable loc then
          (None, c\<lparr>dp := snd (move loc (dp c) (c_key c))\<rparr>,
           loc\<lparr>dataB := Some (bd\<lparr>pairs := remove_key (c_key c) (pairs bd)\<rparr>),
               seqB := Some (bs\<lparr>pairs := remove_key sk (pairs bs)\<rparr>)\<rparr>)
        else (Some ErrTxNotWritable, c\<lparr>dp := snd (move loc (dp c) (c_key c))\<rparr>, loc))"
proof -
  from m x(2) obtain bd where bd: "dataB loc = Some bd"
    by (auto simp: mirrored_def split: option.splits)
  from mirrored_facts(4) [OF m] x(2) have "sorted_bucket bs" by (simp add: sorted_opt_def)
  from keyValue_bGet [OF this x(3)] have g: "bGet bs sk = Some (c_key c)" .
  from mirrored_facts(2) [OF m, of sk "c_key c"] bd x(2) g obtain v where
    v: "bGet bd (c_key c) = Some v" by (auto simp: bucket_or_new_def)
  from ok have p: "pointer_ok loc (dp c)" by (simp add: cursor_ok_def)
  note pd = pointer_Delete_finds [OF m p bd v]
  have "Cursor_Delete loc c =
       (if writable loc then
          (None, c\<lparr>dp := snd (move loc (dp c) (c_key c))\<rparr>,
           loc\<lparr>dataB := Some (bd\<lparr>pairs := remove_key (c_key c) (pairs bd)\<rparr>),
               seqB := Some (bs\<lparr>pairs := remove_key sk (pairs bs)\<rparr>)\<rparr>)
        else (Some ErrTxNotWritable, c\<lparr>dp := snd (move loc (dp c) (c_key c))\<rparr>, loc))"
    using x bd
    by (simp add: Cursor_Delete_def pd Bucket_def setBucket_def cDelete_def seek_key_def)
  with bd g show ?thesis by blast
qed


lemma pointer_Delete_frame:
  "seqB (snd (snd (pointer_Delete loc p k))) = seqB loc \<and>
   writable (snd (snd (pointer_Delete loc p k))) = writable loc"
  by (auto simp: pointer_Delete_def setBucket_def split: prod.splits option.splits sum.splits)

section \<open>DeleteSeq\<close>

lemma DeleteSeq_eq:
  "DeleteSeq loc s =
     (case landed loc (Bucket_Cursor loc) (Seek s) of
        None \<Rightarrow> (None, loc)
      | Some (sk, k) \<Rightarrow>
          if length sk < 8 then (Some ErrInvalidKey, loc)
          else (case Uint64 (take 8 sk) of
                  Inl e \<Rightarrow> (None, loc)
                | Inr s' \<Rightarrow>
                    if s' \<noteq> s then (None, loc)
                    else (case Cursor_Delete loc
                            ((Bucket_Cursor loc)\<lparr>cs := Some (moved loc (Bucket_Cursor loc) (Seek s)),
                               c_seq := s', c_key := k\<rparr>) of
                            (err, c', loc') \<Rightarrow> (err, loc'))))"
proof -
  have c: "Cursor_Seek loc (Bucket_Cursor loc) s = call loc (Bucket_Cursor loc) (Seek s)"
    by (simp add: call_def)
  have e: "c_err (Bucket_Cursor loc) = None" by (simp add: Bucket_Cursor_def)
  have l: "landed loc (Bucket_Cursor loc) (Seek s) = None"
    if "cs (Bucket_Cursor loc) = None \<or> seqB loc = None"
    using that by (rule landed_None)
  show ?thesis
  proof (cases "landed loc (Bucket_Cursor loc) (Seek s)")
    case None
    with e show ?thesis
      unfolding DeleteSeq_def c call_position sync_result
      by (simp add: Cursor_Err_def split: option.splits)
  next
    case (Some r)
    obtain sk k where r: "r = (sk, k)" by (cases r)
    from Some l obtain cur bs where n: "cs (Bucket_Cursor loc) = Some cur" "seqB loc = Some bs"
      by (cases "cs (Bucket_Cursor loc)"; cases "seqB loc") auto
    show ?thesis
    proof (cases "length sk < 8")
      case True
      with Some r n show ?thesis
        unfolding DeleteSeq_def c call_position sync_result
        by (simp add: Cursor_Err_def)
    next
      case False
      with Uint64_take8 [of sk] obtain s' where "Uint64 (take 8 sk) = Inr s'" by auto
      with False Some r n show ?thesis
        unfolding DeleteSeq_def c call_position sync_result
        by (simp add: Cursor_Seq_def split: prod.splits)
    qed
  qed
qed

lemma landed_Seek:
  "landed loc (Bucket_Cursor loc) (Seek s) =
     (case seqB loc of None \<Rightarrow> None | Some bs \<Rightarrow> snd (cSeek bs (PutUint64 s)))"
  by (simp add: landed_def Bucket_Cursor_def Bucket_def split: option.splits)

lemma Cursor_Delete_seq_frame:
  assumes "Cursor_Delete loc c = (e, c', loc')" and "cs c = Some (Some i)"
    and "seqB loc = Some bs" and "keyValue bs i = Some (sk, k)" and "sk' \<noteq> sk"
  shows "\<exists>bs'. seqB loc' = Some bs' \<and> bGet bs' sk' = bGet bs sk'"
proof -
  obtain e1 p' l where x: "pointer_Delete loc (dp c) (c_key c) = (e1, p', l)"
    by (cases "pointer_Delete loc (dp c) (c_key c)") auto
  from pointer_Delete_frame [of loc "dp c" "c_key c"] x
  have fr: "seqB l = seqB loc" by simp
  from assms x fr show ?thesis
    by (auto simp: Cursor_Delete_def Bucket_def setBucket_def cDelete_def bGet_remove_key
        seek_key_def split: option.splits sum.splits if_splits)
qed

lemma DeleteSeq_other_seq:
  assumes "DeleteSeq loc s = (e, loc')" and "s' \<noteq> s"
  shows "GetSeq loc' s' = GetSeq loc s'"
proof (cases "loc' = loc")
  case True
  then show ?thesis by simp
next
  case False
  let ?c = "(Bucket_Cursor loc)\<lparr>cs := Some (moved loc (Bucket_Cursor loc) (Seek s)),
    c_seq := s, c_key := k\<rparr>"
  from False assms(1) obtain sk k c' where
    l: "landed loc (Bucket_Cursor loc) (Seek s) = Some (sk, k)" and v: "8 \<le> length sk" and
    u: "Uint64 (take 8 sk) = Inr s" and
    d: "Cursor_Delete loc ((Bucket_Cursor loc)\<lparr>cs := Some (moved loc (Bucket_Cursor loc) (Seek s)),
          c_seq := s, c_key := k\<rparr>) = (e, c', loc')"
    by (auto simp: DeleteSeq_eq split: option.splits prod.splits if_splits sum.splits)
  from landed_keyValue [OF l] obtain bs i where
    bs: "seqB loc = Some bs" "moved loc (Bucket_Cursor loc) (Seek s) = Some i"
      "keyValue bs i = Some (sk, k)" by blast
  have ne: "PutUint64 s' \<noteq> sk"
  proof
    assume a: "PutUint64 s' = sk"
    then have "length sk = 8" using length_PutUint64 [of s'] by simp
    with u have "PutUint64 s = sk" by (simp add: PutUint64_Uint64)
    with a have "PutUint64 s' = PutUint64 s" by simp
    with assms(2) show False by (simp add: PutUint64_inj)
  qed
  from Cursor_Delete_seq_frame [OF d _ bs(1,3) ne] bs show ?thesis
    by (auto simp: GetSeq_eq)
qed

lemma cursor_ok_landed:
  assumes m: "mirrored loc" and l: "landed loc (Bucket_Cursor loc) mv = Some (sk, k)"
  shows "cursor_ok loc ((Bucket_Cursor loc)\<lparr>cs := Some (moved loc (Bucket_Cursor loc) mv),
      c_seq := s, c_key := k\<rparr>) \<and>
    on_entry loc ((Bucket_Cursor loc)\<lparr>cs := Some (moved loc (Bucket_Cursor loc) mv),
      c_seq := s, c_key := k\<rparr>)"
proof -
  from landed_bGet [OF m l] obtain bs i where
    b: "seqB loc = Some bs" "moved loc (Bucket_Cursor loc) mv = Some i"
       "keyValue bs i = Some (sk, k)" by blast
  from cursor_ok_fresh [OF m] b show ?thesis
    by (auto simp: cursor_ok_def on_entry_def)
qed


lemma DeleteSeq_present:
  assumes m: "mirrored loc" and w: "writable loc" and g: "GetSeq loc s = Some k"
  shows "\<exists>bd bs. dataB loc = Some bd \<and> seqB loc = Some bs \<and>
     DeleteSeq loc s =
       (None, loc\<lparr>dataB := Some (bd\<lparr>pairs := remove_key k (pairs bd)\<rparr>),
                  seqB := Some (bs\<lparr>pairs := remove_key (PutUint64 s) (pairs bs)\<rparr>)\<rparr>)"
proof -
  from g obtain bs where bs: "seqB loc = Some bs" "bGet bs (PutUint64 s) = Some k"
    by (auto simp: GetSeq_eq split: option.splits)
  from mirrored_facts(4) [OF m] bs have "sorted_bucket bs" by (simp add: sorted_opt_def)
  from cSeek_present [OF this bs(2)] obtain i where
    i: "cSeek bs (PutUint64 s) = (Some i, Some (PutUint64 s, k))"
       "keyValue bs i = Some (PutUint64 s, k)" by blast
  with bs have l: "landed loc (Bucket_Cursor loc) (Seek s) = Some (PutUint64 s, k)"
    by (simp add: landed_Seek)
  from i bs have mv: "moved loc (Bucket_Cursor loc) (Seek s) = Some i"
    by (simp add: moved_def Bucket_Cursor_def Bucket_def)
  let ?c = "(Bucket_Cursor loc)\<lparr>cs := Some (Some i), c_seq := s, c_key := k\<rparr>"
  from cursor_ok_landed [OF m l, of s] mv have ok: "cursor_ok loc ?c" by simp
  from Cursor_Delete_at [OF m ok, of i bs "PutUint64 s"] bs(1) i(2) w
  obtain bd where
    x: "dataB loc = Some bd"
       "Cursor_Delete loc ?c =
          (None, ?c\<lparr>dp := snd (move loc (dp ?c) k)\<rparr>,
           loc\<lparr>dataB := Some (bd\<lparr>pairs := remove_key k (pairs bd)\<rparr>),
               seqB := Some (bs\<lparr>pairs := remove_key (PutUint64 s) (pairs bs)\<rparr>)\<rparr>)"
    by auto
  from x bs l mv show ?thesis
    by (simp add: DeleteSeq_eq length_PutUint64 Uint64_PutUint64)
qed

lemma DeleteSeq_absent:
  assumes m: "mirrored loc" and g: "GetSeq loc s = None"
  shows "DeleteSeq loc s = (None, loc)"
proof (cases "landed loc (Bucket_Cursor loc) (Seek s)")
  case None
  then show ?thesis by (simp add: DeleteSeq_eq)
next
  case (Some r)
  obtain sk k where r: "r = (sk, k)" by (cases r)
  from landed_bGet [OF m Some [unfolded r]] obtain bs where
    b: "seqB loc = Some bs" "bGet bs sk = Some k" "length sk = 8" by auto
  with g have ne: "sk \<noteq> PutUint64 s" by (auto simp: GetSeq_eq)
  from b obtain s' where s': "Uint64 sk = Inr s'" using Uint64_take8 [of sk] by auto
  from PutUint64_Uint64 [OF b(3) s'] ne have "s' \<noteq> s" by auto
  with Some r b s' show ?thesis by (simp add: DeleteSeq_eq)
qed

lemma Cursor_Delete_readonly: "\<not> writable loc \<Longrightarrow> snd (snd (Cursor_Delete loc c)) = loc"
  by (auto simp: Cursor_Delete_def pointer_Delete_def cDelete_def
      split: prod.splits option.splits sum.splits)

lemma DeleteSeq_keeps_other_data:
  assumes m: "mirrored loc" and d: "DeleteSeq loc s = (e, loc')" and g: "Get loc k' = Some v'"
    and ne: "Value_Seq v' \<noteq> Inr s"
  shows "Get loc' k' = Some v'"
proof (cases "writable loc")
  case False
  have "snd (snd (Cursor_Delete loc c)) = loc" for c
    using False by (rule Cursor_Delete_readonly)
  then have "Cursor_Delete loc c = (e1, c1, l1) \<Longrightarrow> l1 = loc" for c e1 c1 l1
    by (metis snd_conv)
  with d have "loc' = loc"
    by (auto simp: DeleteSeq_eq split: option.splits prod.splits if_splits sum.splits)
  with g show ?thesis by simp
next
  case True
  show ?thesis
  proof (cases "GetSeq loc s")
    case None
    from DeleteSeq_absent [OF m None] d g show ?thesis by simp
  next
    case (Some k)
    from DeleteSeq_present [OF m True Some] d obtain bd bs where
      x: "dataB loc = Some bd" "seqB loc = Some bs"
         "loc' = loc\<lparr>dataB := Some (bd\<lparr>pairs := remove_key k (pairs bd)\<rparr>),
                  seqB := Some (bs\<lparr>pairs := remove_key (PutUint64 s) (pairs bs)\<rparr>)\<rparr>"
      by auto
    from Some x have gs: "bGet bs (PutUint64 s) = Some k" by (simp add: GetSeq_eq)
    from mirrored_facts(2) [OF m, of "PutUint64 s" k] x gs obtain v where
      v: "bGet bd k = Some v" "take 8 v = PutUint64 s" by (auto simp: bucket_or_new_def)
    from mirrored_facts(1) [OF m, of k v] x v have "8 \<le> length v" by (simp add: bucket_or_new_def)
    with v have "Value_Seq v = Inr s" by (simp add: Value_Seq_def Uint64_PutUint64)
    with ne g x v have "k' \<noteq> k" by (auto simp: Get_eq)
    with g x show ?thesis by (simp add: Get_eq bGet_remove_key)
  qed
qed

lemma mirrored_single: "k \<noteq> [] \<Longrightarrow> mirrored (single k p n)"
  by (auto simp: mirrored_def single_def sorted_bucket_def bGet_def length_newValue
      take8_newValue length_PutUint64 split: if_splits)

lemma mirrored_two_entries: "mirrored two_entries"
  by (auto simp: mirrored_def two_entries_def sorted_bucket_def bGet_def length_newValue
      take8_newValue length_PutUint64 PutUint64_less PutUint64_inj split: if_splits)

text \<open>
  C5. \<open>DeleteSeq loc s\<close> seeks a fresh cursor to \<open>s\<close>. When the seek lands on nothing
  (no entry at or after \<open>s\<close>) it succeeds and changes nothing; when it lands on a seq key
  shorter than 8 bytes it returns \<open>ErrInvalidKey\<close> and changes nothing; when it lands
  on a key that decodes to another sequence number it succeeds and changes nothing. On
  mirrored indices, in a read-write transaction, it removes both entries when \<open>s\<close> is
  live (\<open>GetSeq s\<close> is some key \<open>k\<close>: afterwards \<open>Get k\<close> and \<open>GetSeq s\<close> are absent and
  every other key reads as before), and it succeeds and changes nothing when \<open>s\<close> is not
  live. Whatever it returns, every other sequence number reads as before, and on
  mirrored indices every data entry whose value carries another sequence number is
  still there.
\<close>

theorem DeleteSeq_cases:
  "(landed loc (Bucket_Cursor loc) (Seek s) = None \<longrightarrow> DeleteSeq loc s = (None, loc)) \<and>
   (\<forall>sk k. landed loc (Bucket_Cursor loc) (Seek s) = Some (sk, k) \<and> length sk < 8 \<longrightarrow>
      DeleteSeq loc s = (Some ErrInvalidKey, loc)) \<and>
   (\<forall>sk k. landed loc (Bucket_Cursor loc) (Seek s) = Some (sk, k) \<and> 8 \<le> length sk \<and>
      Uint64 (take 8 sk) \<noteq> Inr s \<longrightarrow> DeleteSeq loc s = (None, loc)) \<and>
   (\<forall>k. mirrored loc \<and> writable loc \<and> GetSeq loc s = Some k \<longrightarrow>
      (\<exists>loc'. DeleteSeq loc s = (None, loc') \<and> Get loc' k = None \<and> GetSeq loc' s = None \<and>
         (\<forall>k'. k' \<noteq> k \<longrightarrow> Get loc' k' = Get loc k'))) \<and>
   (mirrored loc \<and> GetSeq loc s = None \<longrightarrow> DeleteSeq loc s = (None, loc)) \<and>
   (\<forall>e loc' s'. DeleteSeq loc s = (e, loc') \<and> s' \<noteq> s \<longrightarrow> GetSeq loc' s' = GetSeq loc s') \<and>
   (\<forall>e loc' k' v'. mirrored loc \<and> DeleteSeq loc s = (e, loc') \<and> Get loc k' = Some v' \<and>
      Value_Seq v' \<noteq> Inr s \<longrightarrow> Get loc' k' = Some v')"
proof (intro conjI allI impI)
  assume "landed loc (Bucket_Cursor loc) (Seek s) = None"
  then show "DeleteSeq loc s = (None, loc)" by (simp add: DeleteSeq_eq)
next
  fix sk k
  assume "landed loc (Bucket_Cursor loc) (Seek s) = Some (sk, k) \<and> length sk < 8"
  then show "DeleteSeq loc s = (Some ErrInvalidKey, loc)" by (simp add: DeleteSeq_eq)
next
  fix sk k
  assume "landed loc (Bucket_Cursor loc) (Seek s) = Some (sk, k) \<and> 8 \<le> length sk \<and>
      Uint64 (take 8 sk) \<noteq> Inr s"
  then show "DeleteSeq loc s = (None, loc)" by (auto simp: DeleteSeq_eq split: sum.splits)
next
  fix k
  assume a: "mirrored loc \<and> writable loc \<and> GetSeq loc s = Some k"
  with DeleteSeq_present [of loc s k] obtain bd bs where
    x: "dataB loc = Some bd" "seqB loc = Some bs"
       "DeleteSeq loc s =
       (None, loc\<lparr>dataB := Some (bd\<lparr>pairs := remove_key k (pairs bd)\<rparr>),
                  seqB := Some (bs\<lparr>pairs := remove_key (PutUint64 s) (pairs bs)\<rparr>)\<rparr>)"
    by blast
  then show "\<exists>loc'. DeleteSeq loc s = (None, loc') \<and> Get loc' k = None \<and> GetSeq loc' s = None \<and>
         (\<forall>k'. k' \<noteq> k \<longrightarrow> Get loc' k' = Get loc k')"
    by (simp add: Get_eq GetSeq_eq bGet_remove_key)
next
  assume "mirrored loc \<and> GetSeq loc s = None"
  then show "DeleteSeq loc s = (None, loc)" by (simp add: DeleteSeq_absent)
next
  fix e loc' s'
  assume "DeleteSeq loc s = (e, loc') \<and> s' \<noteq> s"
  then show "GetSeq loc' s' = GetSeq loc s'" using DeleteSeq_other_seq [of loc s e loc' s'] by simp
next
  fix e loc' k' v'
  assume "mirrored loc \<and> DeleteSeq loc s = (e, loc') \<and> Get loc k' = Some v' \<and>
      Value_Seq v' \<noteq> Inr s"
  then show "Get loc' k' = Some v'" using DeleteSeq_keeps_other_data [of loc s e loc' k' v'] by simp
qed

theorem DeleteSeq_cases_witness:
  "landed fresh (Bucket_Cursor fresh) (Seek 1) = None \<and> DeleteSeq fresh 1 = (None, fresh) \<and>
   landed corrupt (Bucket_Cursor corrupt) (Seek 2) = Some ([1], [0x79]) \<and>
   DeleteSeq corrupt 2 = (Some ErrInvalidKey, corrupt) \<and>
   landed two_entries (Bucket_Cursor two_entries) (Seek 2) = Some (PutUint64 3, [0x79]) \<and>
   Uint64 (take 8 (PutUint64 3)) \<noteq> Inr 2 \<and>
   mirrored two_entries \<and> writable two_entries \<and> GetSeq two_entries 2 = None \<and>
   DeleteSeq two_entries 2 = (None, two_entries) \<and>
   GetSeq two_entries 1 = Some [0x78] \<and>
   Get two_entries [0x79] = Some (newValue 3 [0x77]) \<and> Value_Seq (newValue 3 [0x77]) \<noteq> Inr 1 \<and>
   DeleteSeq two_entries 1 =
     (None, \<lparr>dataB = Some \<lparr>pairs = [([0x79], newValue 3 [0x77])], sequence = 0\<rparr>,
             seqB = Some \<lparr>pairs = [(PutUint64 3, [0x79])], sequence = 3\<rparr>,
             writable = True\<rparr>) \<and>
   Get \<lparr>dataB = Some \<lparr>pairs = [([0x79], newValue 3 [0x77])], sequence = 0\<rparr>,
        seqB = Some \<lparr>pairs = [(PutUint64 3, [0x79])], sequence = 3\<rparr>,
        writable = True\<rparr> [0x78] = None \<and>
   GetSeq \<lparr>dataB = Some \<lparr>pairs = [([0x79], newValue 3 [0x77])], sequence = 0\<rparr>,
        seqB = Some \<lparr>pairs = [(PutUint64 3, [0x79])], sequence = 3\<rparr>,
        writable = True\<rparr> 1 = None \<and>
   Get \<lparr>dataB = Some \<lparr>pairs = [([0x79], newValue 3 [0x77])], sequence = 0\<rparr>,
        seqB = Some \<lparr>pairs = [(PutUint64 3, [0x79])], sequence = 3\<rparr>,
        writable = True\<rparr> [0x79] = Some (newValue 3 [0x77]) \<and>
   GetSeq \<lparr>dataB = Some \<lparr>pairs = [([0x79], newValue 3 [0x77])], sequence = 0\<rparr>,
        seqB = Some \<lparr>pairs = [(PutUint64 3, [0x79])], sequence = 3\<rparr>,
        writable = True\<rparr> 3 = Some [0x79]"
proof -
  let ?L = "\<lparr>dataB = Some \<lparr>pairs = [([0x79], newValue 3 [0x77])], sequence = 0\<rparr>,
        seqB = Some \<lparr>pairs = [(PutUint64 3, [0x79])], sequence = 3\<rparr>,
        writable = True\<rparr>"
  have l1: "landed fresh (Bucket_Cursor fresh) (Seek 1) = None"
    by (simp add: landed_Seek fresh_def)
  have l2: "landed corrupt (Bucket_Cursor corrupt) (Seek 2) = Some ([1], [0x79])"
    by (simp add: landed_Seek corrupt_def cSeek_eq PutUint64_def)
  have l3: "landed two_entries (Bucket_Cursor two_entries) (Seek 2) = Some (PutUint64 3, [0x79])"
    by (simp add: landed_Seek two_entries_def cSeek_eq PutUint64_le word_le_nat_alt)
  have u: "Uint64 (take 8 (PutUint64 3)) \<noteq> Inr 2"
    by (simp add: length_PutUint64 Uint64_PutUint64)
  have g: "GetSeq two_entries 2 = None" "GetSeq two_entries 1 = Some [0x78]"
    "GetSeq two_entries 3 = Some [0x79]"
    "Get two_entries [0x79] = Some (newValue 3 [0x77])" "writable two_entries"
    by (simp_all add: GetSeq_eq Get_eq two_entries_def bGet_def PutUint64_inj)
  have v: "Value_Seq (newValue 3 [0x77]) \<noteq> Inr 1" by (simp add: Seq_newValue)
  note m = mirrored_two_entries
  have d1: "DeleteSeq fresh 1 = (None, fresh)"
    using DeleteSeq_cases [of fresh 1] l1 by blast
  have d2: "DeleteSeq corrupt 2 = (Some ErrInvalidKey, corrupt)"
  proof -
    have "length [1 :: byte] < 8" by simp
    with DeleteSeq_cases [of corrupt 2] l2 show ?thesis by blast
  qed
  have d3: "DeleteSeq two_entries 2 = (None, two_entries)"
  proof -
    have "8 \<le> length (PutUint64 3)" by (simp add: length_PutUint64)
    with DeleteSeq_cases [of two_entries 2] l3 u show ?thesis by blast
  qed
  have d3': "DeleteSeq two_entries 2 = (None, two_entries)"
    using DeleteSeq_cases [of two_entries 2] m g(1) by blast
  have d4: "DeleteSeq two_entries 1 = (None, ?L)"
    using DeleteSeq_present [OF m g(5) g(2)]
    by (simp add: two_entries_def remove_key_def PutUint64_inj)
  from DeleteSeq_cases [of two_entries 1] m g(2,5)
  have "\<exists>loc'. DeleteSeq two_entries 1 = (None, loc') \<and> Get loc' [0x78] = None \<and>
     GetSeq loc' 1 = None" by blast
  then have a: "Get ?L [0x78] = None \<and> GetSeq ?L 1 = None" unfolding d4 by simp
  have "(3 :: uint64) \<noteq> 1" by simp
  with DeleteSeq_cases [of two_entries 1] d4
  have "GetSeq ?L 3 = GetSeq two_entries 3" by blast
  with g(3) have b: "GetSeq ?L 3 = Some [0x79]" by simp
  from DeleteSeq_cases [of two_entries 1] m d4 g(4) v
  have c: "Get ?L [0x79] = Some (newValue 3 [0x77])" by blast
  show ?thesis using l1 l2 l3 u g v m d1 d2 d3 d4 a b c by simp
qed

section \<open>The invariant over runs of operations\<close>





































section \<open>Traversal in sequence order\<close>

lemma seq_of_8: "length sk = 8 \<Longrightarrow> Uint64 sk = Inr (seq_of sk)"
  using Uint64_take8 [of sk] by (auto simp: seq_of_def)

lemma call_mirrored:
  assumes m: "mirrored loc" and l: "landed loc c mv = Some (sk, k)"
  shows "call loc c mv =
     (True, c\<lparr>cs := Some (moved loc c mv), c_seq := seq_of sk, c_key := k\<rparr>)"
proof -
  from landed_bGet [OF m l] have "length sk = 8" by auto
  from seq_of_8 [OF this] l show ?thesis by (simp add: call_result [OF m])
qed

lemma call_exhausted:
  assumes m: "mirrored loc" and l: "landed loc c mv = None"
  shows "fst (call loc c mv) = False"
  using l by (simp add: call_result [OF m])

lemma next_loop_from:
  assumes m: "mirrored loc" and bs: "seqB loc = Some bs"
  shows "n = length (pairs bs) - i \<Longrightarrow> cs c = Some (Some i) \<Longrightarrow>
     next_loop loc c = map entry (drop (Suc i) (pairs bs))"
proof (induction n arbitrary: i c)
  case 0
  with bs have "landed loc c Next = None" by (simp add: landed_def cNext_def)
  from call_exhausted [OF m this] 0 show ?case
    by (subst next_loop.simps) (simp add: call_def)
next
  case (Suc n)
  show ?case
  proof (cases "Suc i < length (pairs bs)")
    case False
    with bs Suc.prems have "landed loc c Next = None" by (simp add: landed_def cNext_def)
    from call_exhausted [OF m this] False show ?thesis
      by (subst next_loop.simps) (simp add: call_def)
  next
    case True
    obtain sk k where y: "pairs bs ! Suc i = (sk, k)" by (cases "pairs bs ! Suc i")
    from True bs Suc.prems y have l: "landed loc c Next = Some (sk, k)"
      and mv: "moved loc c Next = Some (Suc i)"
      by (simp_all add: landed_def moved_def cNext_def keyValue_def)
    let ?c = "c\<lparr>cs := Some (Some (Suc i)), c_seq := seq_of sk, c_key := k\<rparr>"
    from call_mirrored [OF m l] mv have x: "Cursor_Next loc c = (True, ?c)"
      by (simp add: call_def)
    from Suc.prems have "n = length (pairs bs) - Suc i" by simp
    from Suc.IH [OF this, of ?c]
    have "next_loop loc ?c = map entry (drop (Suc (Suc i)) (pairs bs))" by simp
    moreover from y Cons_nth_drop_Suc [OF True]
    have "drop (Suc i) (pairs bs) = (sk, k) # drop (Suc (Suc i)) (pairs bs)" by simp
    ultimately show ?thesis using x
      by (subst next_loop.simps) (simp add: entry_def Cursor_Seq_def Cursor_Key_def)
  qed
qed

lemma prev_loop_from:
  assumes m: "mirrored loc" and bs: "seqB loc = Some bs"
  shows "i \<le> length (pairs bs) \<Longrightarrow> cs c = Some (Some i) \<Longrightarrow>
     prev_loop loc c = map entry (rev (take i (pairs bs)))"
proof (induction i arbitrary: c)
  case 0
  with bs have "landed loc c Prev = None" by (simp add: landed_def cPrev_def)
  from call_exhausted [OF m this] show ?case
    by (subst prev_loop.simps) (simp add: call_def)
next
  case (Suc i)
  then have i: "i < length (pairs bs)" by simp
  obtain sk k where y: "pairs bs ! i = (sk, k)" by (cases "pairs bs ! i")
  from i bs Suc.prems y have l: "landed loc c Prev = Some (sk, k)"
    and mv: "moved loc c Prev = Some i"
    by (simp_all add: landed_def moved_def cPrev_def keyValue_def)
  let ?c = "c\<lparr>cs := Some (Some i), c_seq := seq_of sk, c_key := k\<rparr>"
  from call_mirrored [OF m l] mv have x: "Cursor_Prev loc c = (True, ?c)"
    by (simp add: call_def)
  from i have "i \<le> length (pairs bs)" by simp
  from Suc.IH [OF this, of ?c] have "prev_loop loc ?c = map entry (rev (take i (pairs bs)))"
    by simp
  with x y take_Suc_conv_app_nth [OF i] show ?case
    by (subst prev_loop.simps) (simp add: entry_def Cursor_Seq_def Cursor_Key_def)
qed

lemma forward_entries:
  assumes m: "mirrored loc"
  shows "forward loc = entries loc"
proof (cases "seqB loc")
  case None
  then have "landed loc (Bucket_Cursor loc) First = None" by (simp add: landed_None)
  from call_exhausted [OF m this] None show ?thesis
    by (auto simp: forward_def entries_def call_def split: prod.splits)
next
  case (Some bs)
  show ?thesis
  proof (cases "pairs bs")
    case Nil
    with Some have "landed loc (Bucket_Cursor loc) First = None"
      by (simp add: landed_def cFirst_def keyValue_def split: option.splits)
    from call_exhausted [OF m this] Some Nil show ?thesis
      by (auto simp: forward_def entries_def call_def split: prod.splits)
  next
    case (Cons p ps)
    obtain sk k where p: "p = (sk, k)" by (cases p)
    from Some Cons p have l: "landed loc (Bucket_Cursor loc) First = Some (sk, k)"
      and mv: "moved loc (Bucket_Cursor loc) First = Some 0"
      by (simp_all add: landed_def moved_def cFirst_def keyValue_def Bucket_Cursor_def Bucket_def)
    let ?c = "(Bucket_Cursor loc)\<lparr>cs := Some (Some 0), c_seq := seq_of sk, c_key := k\<rparr>"
    from call_mirrored [OF m l] mv have f: "Cursor_First loc (Bucket_Cursor loc) = (True, ?c)"
      by (simp add: call_def)
    from next_loop_from [OF m Some refl, of ?c 0] Cons
    have "next_loop loc ?c = map entry ps" by simp
    with f Some Cons p show ?thesis
      by (simp add: forward_def entries_def entry_def Cursor_Seq_def Cursor_Key_def)
  qed
qed

lemma backward_entries:
  assumes m: "mirrored loc"
  shows "backward loc = rev (entries loc)"
proof (cases "seqB loc")
  case None
  then have "landed loc (Bucket_Cursor loc) Last = None" by (simp add: landed_None)
  from call_exhausted [OF m this] None show ?thesis
    by (auto simp: backward_def entries_def call_def split: prod.splits)
next
  case (Some bs)
  show ?thesis
  proof (cases "pairs bs" rule: rev_cases)
    case Nil
    with Some have "landed loc (Bucket_Cursor loc) Last = None"
      by (simp add: landed_def cLast_def keyValue_def split: option.splits)
    from call_exhausted [OF m this] Some Nil show ?thesis
      by (auto simp: backward_def entries_def call_def split: prod.splits)
  next
    case (snoc ps p)
    obtain sk k where p: "p = (sk, k)" by (cases p)
    from Some snoc p have l: "landed loc (Bucket_Cursor loc) Last = Some (sk, k)"
      and mv: "moved loc (Bucket_Cursor loc) Last = Some (length ps)"
      by (simp_all add: landed_def moved_def cLast_def keyValue_def Bucket_Cursor_def Bucket_def)
    let ?c = "(Bucket_Cursor loc)\<lparr>cs := Some (Some (length ps)), c_seq := seq_of sk, c_key := k\<rparr>"
    from call_mirrored [OF m l] mv have f: "Cursor_Last loc (Bucket_Cursor loc) = (True, ?c)"
      by (simp add: call_def)
    from snoc have "length ps \<le> length (pairs bs)" by simp
    from prev_loop_from [OF m Some this, of ?c] snoc
    have "prev_loop loc ?c = map entry (rev ps)" by simp
    with f Some snoc p show ?thesis
      by (simp add: backward_def entries_def entry_def Cursor_Seq_def Cursor_Key_def rev_map)
  qed
qed

lemma seq_of_PutUint64: "seq_of (PutUint64 s) = s"
  by (simp add: seq_of_def length_PutUint64 Uint64_PutUint64)

lemma PutUint64_seq_of: "length sk = 8 \<Longrightarrow> PutUint64 (seq_of sk) = sk"
  using PutUint64_Uint64 [of sk "seq_of sk"] seq_of_8 [of sk] by simp

lemma snd_entry: "snd \<circ> entry = snd"
  by (rule ext) (simp add: entry_def)

lemma map_snd_entries:
  "seqB loc = Some bs \<Longrightarrow> map snd (entries loc) = map snd (pairs bs)"
  by (simp add: entries_def snd_entry)

lemma entries_props:
  assumes m: "mirrored loc"
  shows "sorted_wrt (<) (map fst (entries loc))"
    and "set (entries loc) = {(s, k). GetSeq loc s = Some k}"
    and "distinct (map snd (entries loc))"
    and "set (map snd (entries loc)) = {k. Get loc k \<noteq> None}"
proof -
  show "sorted_wrt (<) (map fst (entries loc))"
  proof (cases "seqB loc")
    case None
    then show ?thesis by (simp add: entries_def)
  next
    case (Some bs)
    from m Some have srt: "sorted_wrt (<) (map fst (pairs bs))" and sb: "sorted_bucket bs"
      by (auto simp: mirrored_def sorted_bucket_def split: option.splits)
    have len: "length (fst p) = 8" if "p \<in> set (pairs bs)" for p
    proof -
      from that have "(fst p, snd p) \<in> set (pairs bs)" by simp
      from mem_sorted_bGet [OF sb this] mirrored_facts(2) [OF m, of "fst p" "snd p"] Some
      show ?thesis by (simp add: bucket_or_new_def)
    qed
    from srt have "sorted_wrt (\<lambda>x y. fst x < fst y) (pairs bs)" by (simp add: sorted_wrt_map)
    then have "sorted_wrt (\<lambda>x y. seq_of (fst x) < seq_of (fst y)) (pairs bs)"
    proof (rule sorted_wrt_mono_rel [rotated])
      fix x y
      assume "x \<in> set (pairs bs)" "y \<in> set (pairs bs)" "fst x < fst y"
      with len [of x] len [of y]
      have "PutUint64 (seq_of (fst x)) < PutUint64 (seq_of (fst y))"
        by (simp add: PutUint64_seq_of)
      then show "seq_of (fst x) < seq_of (fst y)" by (simp add: PutUint64_less)
    qed
    with Some show ?thesis by (simp add: entries_def sorted_wrt_map entry_def comp_def)
  qed
next
  show "set (entries loc) = {(s, k). GetSeq loc s = Some k}"
  proof (cases "seqB loc")
    case None
    then show ?thesis by (simp add: entries_def GetSeq_eq)
  next
    case (Some bs)
    from m Some have sb: "sorted_bucket bs"
      by (auto simp: mirrored_def split: option.splits)
    have "(s, k) \<in> set (map entry (pairs bs)) \<longleftrightarrow> bGet bs (PutUint64 s) = Some k" for s k
    proof
      assume "(s, k) \<in> set (map entry (pairs bs))"
      then obtain sk where p: "(sk, k) \<in> set (pairs bs)" and s: "s = seq_of sk"
        by (auto simp: entry_def)
      from mem_sorted_bGet [OF sb p] have g: "bGet bs sk = Some k" .
      with mirrored_facts(2) [OF m, of sk k] Some have "length sk = 8"
        by (simp add: bucket_or_new_def)
      with g s show "bGet bs (PutUint64 s) = Some k" by (simp add: PutUint64_seq_of)
    next
      assume "bGet bs (PutUint64 s) = Some k"
      then have "(PutUint64 s, k) \<in> set (pairs bs)" by (simp add: bGet_def map_of_SomeD)
      then have "entry (PutUint64 s, k) \<in> set (map entry (pairs bs))" by simp
      then show "(s, k) \<in> set (map entry (pairs bs))" by (simp add: entry_def seq_of_PutUint64)
    qed
    with Some show ?thesis by (auto simp: entries_def GetSeq_eq)
  qed
next
  show "distinct (map snd (entries loc))"
  proof (cases "seqB loc")
    case None
    then show ?thesis by (simp add: entries_def)
  next
    case (Some bs)
    from m Some have sb: "sorted_bucket bs"
      by (auto simp: mirrored_def split: option.splits)
    then have d: "distinct (pairs bs)"
      by (metis distinct_map sorted_bucket_def strict_sorted_iff)
    have "inj_on snd (set (pairs bs))"
    proof (rule inj_onI)
      fix p q
      assume p: "p \<in> set (pairs bs)" and q: "q \<in> set (pairs bs)" and e: "snd p = snd q"
      from p q have "(fst p, snd p) \<in> set (pairs bs)" "(fst q, snd q) \<in> set (pairs bs)" by simp_all
      from mem_sorted_bGet [OF sb this(1)] mem_sorted_bGet [OF sb this(2)]
      have g: "bGet bs (fst p) = Some (snd p)" "bGet bs (fst q) = Some (snd q)" .
      from mirrored_facts(2) [OF m, of "fst p" "snd p"] mirrored_facts(2) [OF m, of "fst q" "snd q"]
        g Some e
      have "fst p = fst q" by (auto simp: bucket_or_new_def)
      with e show "p = q" by (simp add: prod_eq_iff)
    qed
    with d have "distinct (map snd (pairs bs))" by (simp add: distinct_map)
    then show ?thesis unfolding map_snd_entries [OF Some] .
  qed
next
  show "set (map snd (entries loc)) = {k. Get loc k \<noteq> None}"
  proof (cases "seqB loc")
    case None
    with m have "dataB loc = None" by (auto simp: mirrored_def split: option.splits)
    with None show ?thesis by (simp add: entries_def Get_eq)
  next
    case (Some bs)
    from m Some obtain bd where bd: "dataB loc = Some bd"
      by (auto simp: mirrored_def split: option.splits)
    from m Some have sb: "sorted_bucket bs"
      by (auto simp: mirrored_def split: option.splits)
    have "k \<in> snd ` set (pairs bs) \<longleftrightarrow> bGet bd k \<noteq> None" for k
    proof
      assume "k \<in> snd ` set (pairs bs)"
      then obtain sk where "(sk, k) \<in> set (pairs bs)" by auto
      from mem_sorted_bGet [OF sb this] mirrored_facts(2) [OF m, of sk k] Some bd
      show "bGet bd k \<noteq> None" by (auto simp: bucket_or_new_def)
    next
      assume "bGet bd k \<noteq> None"
      then obtain v where "bGet bd k = Some v" by auto
      with mirrored_facts(1) [OF m, of k v] Some bd have "bGet bs (take 8 v) = Some k"
        by (simp add: bucket_or_new_def)
      then have "(take 8 v, k) \<in> set (pairs bs)" by (simp add: bGet_def map_of_SomeD)
      then show "k \<in> snd ` set (pairs bs)" by force
    qed
    then show ?thesis unfolding map_snd_entries [OF Some] using bd by (auto simp: Get_eq)
  qed
qed

text \<open>
  C6. On mirrored indices, the loop from \<open>First\<close> through \<open>Next\<close> collects the pairs
  \<open>(Seq, Key)\<close> in strictly ascending order of the sequence number; the pairs collected
  are exactly the pairs \<open>(s, k)\<close> with \<open>GetSeq s = k\<close>; no key is collected twice and the
  keys collected are exactly the keys that \<open>Get\<close> finds. The loop from \<open>Last\<close> through
  \<open>Prev\<close> collects the same pairs in the reverse order, so in descending order. Both
  loops run as many times as there are keys that \<open>Get\<close> finds. The 8-byte big-endian
  encoding of \<open>PutUint64\<close> makes the byte order of the seq keys the numeric order of the
  sequence numbers.
\<close>

theorem cursor_traversal:
  assumes "mirrored loc"
  shows "sorted_wrt (<) (map fst (forward loc)) \<and>
     set (forward loc) = {(s, k). GetSeq loc s = Some k} \<and>
     distinct (map snd (forward loc)) \<and>
     set (map snd (forward loc)) = {k. Get loc k \<noteq> None} \<and>
     backward loc = rev (forward loc) \<and>
     length (forward loc) = card {k. Get loc k \<noteq> None} \<and>
     length (backward loc) = card {k. Get loc k \<noteq> None} \<and>
     (\<forall>a b. (PutUint64 a < PutUint64 b) = (a < b))"
proof -
  note f = forward_entries [OF assms] and b = backward_entries [OF assms]
  note p = entries_props [OF assms]
  from distinct_card [OF p(3)] p(4)
  have "length (entries loc) = card {k. Get loc k \<noteq> None}" by simp
  with f b p show ?thesis by (simp add: PutUint64_less)
qed

theorem cursor_traversal_witness:
  "mirrored two_entries \<and>
   forward two_entries = [(1, [0x78]), (3, [0x79])] \<and>
   backward two_entries = [(3, [0x79]), (1, [0x78])] \<and>
   sorted_wrt (<) (map fst [(1 :: uint64, [0x78 :: byte]), (3, [0x79])]) \<and>
   {(s, k). GetSeq two_entries s = Some k} = set [(1, [0x78]), (3, [0x79])] \<and>
   {k. Get two_entries k \<noteq> None} = set [[0x78], [0x79]] \<and>
   card {k. Get two_entries k \<noteq> None} = 2"
proof -
  note m = mirrored_two_entries
  have e: "entries two_entries = [(1, [0x78]), (3, [0x79])]"
    by (simp add: entries_def two_entries_def entry_def seq_of_PutUint64)
  from forward_entries [OF m] e have f: "forward two_entries = [(1, [0x78]), (3, [0x79])]" by simp
  from cursor_traversal [OF m] show ?thesis
    unfolding f using m by simp
qed

end
